theory Spec2Isabelle
  imports Main "HOL-Library.Multiset" "HOL-Library.Char_ord"
begin

section \<open>Mastermind on a keypad and a character display: the game logic of mastermind.ino\<close>

text \<open>
  The sketch keeps one global struct \<open>gameData\<close>, a global pool of digits that is shuffled
  in place, and the state of the pseudo-random generator of the Arduino core. The model
  passes these around explicitly. Two light-emitting diodes and the message area of the
  display are kept as well, since they are what tells a won game from a lost one.
  Cursor arithmetic, the serial log and the keypad scan are left out.
\<close>

subsection \<open>Constants of the sketch\<close>

definition SECRET_LENGTH :: nat where "SECRET_LENGTH = 4"
definition DIGIT_COUNT :: nat where "DIGIT_COUNT = 10"
definition TRIES_MAX :: nat where "TRIES_MAX = 12"

definition HINT_WRONG :: char where "HINT_WRONG = CHR ''-''"
definition HINT_MISPLACED :: char where "HINT_MISPLACED = CHR ''?''"
definition HINT_CORRECT :: char where "HINT_CORRECT = CHR ''!''"

definition BUTTON_NEWROUND :: char where "BUTTON_NEWROUND = CHR ''*''"
definition BUTTON_NEWGAME :: char where "BUTTON_NEWGAME = CHR ''#''"

definition MESSAGE_WIN :: string where "MESSAGE_WIN = ''Winner''"
definition MESSAGE_LOSE :: string where "MESSAGE_LOSE = ''Loser''"
definition MESSAGE_NEXTTRY :: string where "MESSAGE_NEXTTRY = ''Try again''"

text \<open>
  Modelled from the spec: the "no event" value of the polled input source. The sketch
  takes it from the keypad library, which is not part of the repository; there
  \<open>NO_KEY\<close> is the character with code 0.
\<close>

definition NO_KEY :: char where "NO_KEY = CHR 0x00"

text \<open>
  On the 8-bit boards the sketch is written for, \<open>size_t\<close> and \<open>unsigned int\<close> both have
  16 bits: \<open>x++\<close> wraps around at \<open>2 ^ 16\<close>.
\<close>

definition incr16 :: "nat \<Rightarrow> nat" where
  "incr16 n = (n + 1) mod 2 ^ 16"

subsection \<open>Data\<close>

datatype gamestate = GS_INPUT | GS_ROUNDOVER | GS_GAMEOVER

datatype error = OutOfBounds | DivisionByZero

record gameData =
  state :: gamestate
  secret :: "char list"
  input :: "char list"
  hints :: "char list"
  inputCount :: nat
  tries :: nat

text \<open>
  The entropy source is the sequence of raw draws the generator will make, the next one
  first. Drawing consumes one element.

  Besides \<open>gameData\<close> the globals are the digit pool, the entropy source, the levels of
  the two diode pins (\<open>True\<close> for \<open>HIGH\<close>), and the text last printed into the message
  area at the right end of the display's first row, empty once that area is cleared.
\<close>

type_synonym entropy = "nat \<Rightarrow> nat"

record world =
  gd :: gameData
  randomDigitPool :: "char list"
  rng :: entropy
  ledWin :: bool
  ledLose :: bool
  lcdMessage :: string

text \<open>The three buffers of \<open>gameData\<close> are arrays of \<open>SECRET_LENGTH\<close> characters.\<close>

definition wf_gameData :: "gameData \<Rightarrow> bool" where
  "wf_gameData g \<longleftrightarrow>
     length (secret g) = SECRET_LENGTH \<and> length (input g) = SECRET_LENGTH \<and>
     length (hints g) = SECRET_LENGTH"

subsection \<open>Random numbers\<close>

text \<open>
  Modelled from the spec: the entropy source \<open>randomBelow(n)\<close>, an integer in \<open>[0, n)\<close>
  for a positive \<open>n\<close>. The sketch calls \<open>random(howbig)\<close> of the Arduino core, which is not
  part of the repository: the next raw draw modulo \<open>howbig\<close>, so every value below
  \<open>howbig\<close> can come out, and 0 without a draw for \<open>howbig = 0\<close>.
\<close>

definition random_n :: "nat \<Rightarrow> entropy \<Rightarrow> nat \<times> entropy" where
  "random_n howbig e =
     (if howbig = 0 then (0, e) else (e 0 mod howbig, \<lambda>k. e (Suc k)))"

definition randomNumber :: "nat \<Rightarrow> entropy \<Rightarrow> nat \<times> entropy" where
  "randomNumber n e = (if n > 0 then random_n n e else (0, e))"

text \<open>
  \<open>random\<close> of the test harness (ProductionCode.c): \<open>(size_t)rand() % n\<close>, with no guard.
\<close>

definition random_t :: "nat \<Rightarrow> entropy \<Rightarrow> error + (nat \<times> entropy)" where
  "random_t n e =
     (if n = 0 then Inl DivisionByZero else Inr (e 0 mod n, \<lambda>k. e (Suc k)))"

subsection \<open>The shuffle\<close>

text \<open>
  \<open>for(i = n; i-- > 0;)\<close>: the test reads the counter and decrements it, so a counter
  \<open>Suc i\<close> runs the body with \<open>i\<close>, and a counter 0 leaves the loop. The body swaps
  \<open>arr[i]\<close> and \<open>arr[z]\<close>; an index outside the array is an error of the model.
\<close>

fun shuffleSort_loop :: "nat \<Rightarrow> char list \<Rightarrow> entropy \<Rightarrow> error + (char list \<times> entropy)" where
  "shuffleSort_loop 0 arr e = Inr (arr, e)"
| "shuffleSort_loop (Suc i) arr e =
     (case randomNumber i e of (r, e') \<Rightarrow>
        let z = r + 1 in
        if i < length arr \<and> z < length arr
        then shuffleSort_loop i (arr[i := arr ! z, z := arr ! i]) e'
        else Inl OutOfBounds)"

definition shuffleSort :: "char list \<Rightarrow> nat \<Rightarrow> entropy \<Rightarrow> error + (char list \<times> entropy)" where
  "shuffleSort arr n e = shuffleSort_loop n arr e"

text \<open>The pairs \<open>(i, z)\<close> of the iterations of that loop, in the order they run.\<close>

fun shuffleSort_swaps :: "nat \<Rightarrow> entropy \<Rightarrow> (nat \<times> nat) list" where
  "shuffleSort_swaps 0 e = []"
| "shuffleSort_swaps (Suc i) e =
     (case randomNumber i e of (r, e') \<Rightarrow> (i, r + 1) # shuffleSort_swaps i e')"

definition swap_at :: "char list \<Rightarrow> nat \<times> nat \<Rightarrow> char list" where
  "swap_at arr p = (case p of (i, z) \<Rightarrow> arr[i := arr ! z, z := arr ! i])"

text \<open>
  The copy of the loop in the test harness, which calls the unguarded \<open>random\<close>. After
  each swap it prints the pair \<open>(i, z)\<close> to the error stream; the lines printed so far
  are kept beside the result, also when the run ends in an error.
\<close>

fun shuffleSort_t_loop ::
  "nat \<Rightarrow> char list \<Rightarrow> entropy \<Rightarrow> (nat \<times> nat) list \<Rightarrow>
   (error + (char list \<times> entropy)) \<times> (nat \<times> nat) list" where
  "shuffleSort_t_loop 0 arr e out = (Inr (arr, e), out)"
| "shuffleSort_t_loop (Suc i) arr e out =
     (case random_t i e of
        Inl err \<Rightarrow> (Inl err, out)
      | Inr (r, e') \<Rightarrow>
          let z = r + 1 in
          if i < length arr \<and> z < length arr
          then shuffleSort_t_loop i (arr[i := arr ! z, z := arr ! i]) e' (out @ [(i, z)])
          else (Inl OutOfBounds, out))"

definition shuffleSort_t ::
  "char list \<Rightarrow> nat \<Rightarrow> entropy \<Rightarrow> (error + (char list \<times> entropy)) \<times> (nat \<times> nat) list" where
  "shuffleSort_t arr cnt e = shuffleSort_t_loop cnt arr e []"

subsection \<open>Generating the secret\<close>

fun fill_random :: "nat list \<Rightarrow> char list \<Rightarrow> entropy \<Rightarrow> char list \<times> entropy" where
  "fill_random [] s e = (s, e)"
| "fill_random (i # is) s e =
     (case random_n DIGIT_COUNT e of (r, e') \<Rightarrow>
        fill_random is (s[i := char_of (of_char (CHR ''0'') + r)]) e')"

definition copy_pool :: "char list \<Rightarrow> char list \<Rightarrow> char list" where
  "copy_pool pool s = foldl (\<lambda>s i. s[i := pool ! i]) s [0..<SECRET_LENGTH]"

definition generateSecret :: "bool \<Rightarrow> world \<Rightarrow> error + world" where
  "generateSecret allowDuplicates w =
     (if allowDuplicates then
        (case fill_random [0..<SECRET_LENGTH] (secret (gd w)) (rng w) of (s, e') \<Rightarrow>
           Inr (w\<lparr>gd := (gd w)\<lparr>secret := s\<rparr>, rng := e'\<rparr>))
      else
        (case shuffleSort (randomDigitPool w) DIGIT_COUNT (rng w) of
           Inl err \<Rightarrow> Inl err
         | Inr (pool', e') \<Rightarrow>
             if SECRET_LENGTH \<le> length pool' then
               Inr (w\<lparr>gd := (gd w)\<lparr>secret := copy_pool pool' (secret (gd w))\<rparr>,
                      randomDigitPool := pool', rng := e'\<rparr>)
             else Inl OutOfBounds))"

subsection \<open>Rounds and games\<close>

definition resetInput :: "world \<Rightarrow> world" where
  "resetInput w = w\<lparr>gd := (gd w)\<lparr>inputCount := 0, state := GS_INPUT\<rparr>, lcdMessage := []\<rparr>"

definition newGame :: "world \<Rightarrow> error + world" where
  "newGame w =
     (case generateSecret False (w\<lparr>lcdMessage := []\<rparr>) of
        Inl err \<Rightarrow> Inl err
      | Inr w1 \<Rightarrow>
          Inr (resetInput (w1\<lparr>gd := (gd w1)\<lparr>tries := 0\<rparr>, ledWin := False, ledLose := False\<rparr>)))"

subsection \<open>Checking a guess\<close>

text \<open>
  The inner loop of \<open>checkInput\<close> over the positions \<open>j\<close> still to visit: an equal digit
  at \<open>j = i\<close> writes \<open>HINT_CORRECT\<close> and leaves the loop, an equal digit elsewhere writes
  \<open>HINT_MISPLACED\<close> and goes on.
\<close>

fun checkInput_scan :: "nat \<Rightarrow> nat list \<Rightarrow> gameData \<Rightarrow> gameData" where
  "checkInput_scan i [] g = g"
| "checkInput_scan i (j # js) g =
     (if input g ! i = secret g ! j then
        (if i = j then g\<lparr>hints := (hints g)[i := HINT_CORRECT]\<rparr>
         else checkInput_scan i js (g\<lparr>hints := (hints g)[i := HINT_MISPLACED]\<rparr>))
      else checkInput_scan i js g)"

text \<open>The outer loop over the guess positions still to visit, then the whole function.\<close>

definition checkInput_rows :: "nat list \<Rightarrow> gameData \<Rightarrow> gameData" where
  "checkInput_rows is g = foldl (\<lambda>g i. checkInput_scan i [0..<SECRET_LENGTH] g) g is"

definition checkInput :: "gameData \<Rightarrow> gameData" where
  "checkInput g =
     checkInput_rows [0..<SECRET_LENGTH]
       (g\<lparr>hints := replicate SECRET_LENGTH HINT_WRONG @ drop SECRET_LENGTH (hints g)\<rparr>)"

fun isSecretSolved_from :: "nat \<Rightarrow> nat \<Rightarrow> char list \<Rightarrow> bool" where
  "isSecretSolved_from i 0 hs = True"
| "isSecretSolved_from i (Suc k) hs =
     (if hs ! i \<noteq> HINT_CORRECT then False else isSecretSolved_from (Suc i) k hs)"

definition isSecretSolved :: "char list \<Rightarrow> nat \<Rightarrow> bool" where
  "isSecretSolved hs n = isSecretSolved_from 0 n hs"

definition isSolved :: "gameData \<Rightarrow> bool" where
  "isSolved g = isSecretSolved (hints g) SECRET_LENGTH"

subsection \<open>One key event\<close>

text \<open>The block of \<open>loop\<close> that runs once the guess is complete.\<close>

definition loop_evaluate :: "world \<Rightarrow> world" where
  "loop_evaluate w =
     (let g = checkInput ((gd w)\<lparr>tries := incr16 (tries (gd w))\<rparr>) in
      if isSolved g then
        w\<lparr>gd := g\<lparr>state := GS_GAMEOVER\<rparr>, lcdMessage := MESSAGE_WIN, ledWin := True\<rparr>
      else if tries g \<ge> TRIES_MAX then
        w\<lparr>gd := g\<lparr>state := GS_GAMEOVER\<rparr>, lcdMessage := MESSAGE_LOSE, ledLose := True\<rparr>
      else
        w\<lparr>gd := g\<lparr>state := GS_ROUNDOVER\<rparr>, lcdMessage := MESSAGE_NEXTTRY\<rparr>)"

text \<open>
  \<open>loop\<close> with the key the keypad returned. The write \<open>input[inputCount] = key\<close> has no
  check of its own in the sketch; the model reports an index outside the buffer.
\<close>

definition loop :: "char \<Rightarrow> world \<Rightarrow> error + world" where
  "loop key w =
     (if key = NO_KEY then Inr w
      else if state (gd w) = GS_INPUT \<and> (key \<ge> CHR ''0'' \<and> key \<le> CHR ''9'') then
        (if inputCount (gd w) < SECRET_LENGTH then
           (let w1 = w\<lparr>gd := (gd w)\<lparr>input := (input (gd w))[inputCount (gd w) := key],
                                    inputCount := incr16 (inputCount (gd w))\<rparr>\<rparr>
            in Inr (if inputCount (gd w1) \<ge> SECRET_LENGTH then loop_evaluate w1 else w1))
         else Inl OutOfBounds)
      else if key = BUTTON_NEWROUND then
        (if state (gd w) = GS_INPUT \<or> state (gd w) = GS_ROUNDOVER then Inr (resetInput w)
         else if state (gd w) = GS_GAMEOVER then newGame w
         else Inr w)
      else if key = BUTTON_NEWGAME then newGame w
      else Inr w)"

subsection \<open>Sessions\<close>

text \<open>
  The globals before \<open>setup\<close> runs: \<open>gameData\<close> is zero-initialised, the pool holds the ten
  digits in order.
\<close>

definition initial_world :: "entropy \<Rightarrow> world" where
  "initial_world e =
     \<lparr>gd = \<lparr>state = GS_INPUT,
            secret = replicate SECRET_LENGTH (CHR 0x00),
            input = replicate SECRET_LENGTH (CHR 0x00),
            hints = replicate SECRET_LENGTH (CHR 0x00),
            inputCount = 0, tries = 0\<rparr>,
      randomDigitPool = ''0123456789'',
      rng = e, ledWin = False, ledLose = False, lcdMessage = []\<rparr>"

definition startup :: "entropy \<Rightarrow> error + world" where
  "startup e = newGame (initial_world e)"

fun run :: "char list \<Rightarrow> world \<Rightarrow> error + world" where
  "run [] w = Inr w"
| "run (k # ks) w = (case loop k w of Inl err \<Rightarrow> Inl err | Inr w' \<Rightarrow> run ks w')"

definition session :: "entropy \<Rightarrow> char list \<Rightarrow> error + world" where
  "session e ks = (case startup e of Inl err \<Rightarrow> Inl err | Inr w \<Rightarrow> run ks w)"

text \<open>
  What holds of the globals between two key events: the buffers have their declared
  size, the pool is a rearrangement of the ten digits, the secret is the pool's prefix,
  and the counters are in range for the state.
\<close>

definition session_inv :: "world \<Rightarrow> bool" where
  "session_inv w \<longleftrightarrow>
     wf_gameData (gd w) \<and>
     mset (randomDigitPool w) = mset ''0123456789'' \<and>
     secret (gd w) = take SECRET_LENGTH (randomDigitPool w) \<and>
     inputCount (gd w) \<le> SECRET_LENGTH \<and>
     (state (gd w) = GS_INPUT \<longrightarrow> inputCount (gd w) < SECRET_LENGTH) \<and>
     tries (gd w) \<le> TRIES_MAX \<and>
     (state (gd w) \<noteq> GS_GAMEOVER \<longrightarrow> tries (gd w) < TRIES_MAX) \<and>
     (state (gd w) = GS_ROUNDOVER \<longrightarrow> \<not> isSolved (gd w))"

subsection \<open>Concrete inputs\<close>

text \<open>An entropy source whose raw draws are all 0, and one that counts upwards.\<close>

definition zero_entropy :: entropy where "zero_entropy = (\<lambda>k. 0)"

definition counting_entropy :: entropy where "counting_entropy = (\<lambda>k. k)"

text \<open>A complete guess \<open>i\<close> waiting to be checked against the secret \<open>s\<close>.\<close>

definition guess_of :: "string \<Rightarrow> string \<Rightarrow> gameData" where
  "guess_of s i =
     \<lparr>state = GS_INPUT, secret = s, input = i,
      hints = replicate SECRET_LENGTH (CHR 0x00),
      inputCount = SECRET_LENGTH, tries = 0\<rparr>"

text \<open>
  The globals in the middle of a game with secret 1234: \<open>t\<close> tries made, three digits of
  the next guess typed.
\<close>

definition world_at :: "nat \<Rightarrow> string \<Rightarrow> world" where
  "world_at t i =
     \<lparr>gd = \<lparr>state = GS_INPUT, secret = ''1234'', input = i,
            hints = replicate SECRET_LENGTH (CHR 0x00),
            inputCount = 3, tries = t\<rparr>,
      randomDigitPool = ''1234567890'',
      rng = zero_entropy, ledWin = False, ledLose = False, lcdMessage = []\<rparr>"

text \<open>
  A game whose secret is 2034 (the one the all-zero entropy gives first), waiting for the
  first digit of a guess with \<open>t\<close> tries made; and the keys of \<open>n\<close> rounds that each guess
  5555 and then ask for a new round.
\<close>

definition playing :: "nat \<Rightarrow> world \<Rightarrow> bool" where
  "playing t w \<longleftrightarrow>
     state (gd w) = GS_INPUT \<and> inputCount (gd w) = 0 \<and> secret (gd w) = ''2034'' \<and>
     length (input (gd w)) = SECRET_LENGTH \<and> length (hints (gd w)) = SECRET_LENGTH \<and>
     tries (gd w) = t"

definition failed_rounds :: "nat \<Rightarrow> char list" where
  "failed_rounds n = concat (replicate n ''5555*'')"

section \<open>The hints of a guess\<close>

lemma scan_input [simp]: "input (checkInput_scan i js g) = input g"
  by (induction js arbitrary: g) auto

lemma scan_secret [simp]: "secret (checkInput_scan i js g) = secret g"
  by (induction js arbitrary: g) auto

lemma scan_state [simp]: "state (checkInput_scan i js g) = state g"
  by (induction js arbitrary: g) auto

lemma scan_inputCount [simp]: "inputCount (checkInput_scan i js g) = inputCount g"
  by (induction js arbitrary: g) auto

lemma scan_tries [simp]: "tries (checkInput_scan i js g) = tries g"
  by (induction js arbitrary: g) auto

lemma scan_length_hints [simp]: "length (hints (checkInput_scan i js g)) = length (hints g)"
  by (induction js arbitrary: g) auto

lemma scan_other: "k \<noteq> i \<Longrightarrow> hints (checkInput_scan i js g) ! k = hints g ! k"
  by (induction js arbitrary: g) auto

text \<open>What one run of the inner loop leaves at position \<open>i\<close>.\<close>

lemma scan_result:
  "i < length (hints g) \<Longrightarrow>
   hints (checkInput_scan i js g) ! i =
     (if i \<in> set js \<and> input g ! i = secret g ! i then HINT_CORRECT
      else if \<exists>j\<in>set js. input g ! i = secret g ! j then HINT_MISPLACED
      else hints g ! i)"
proof (induction js arbitrary: g)
  case Nil
  then show ?case by simp
next
  case (Cons j js)
  show ?case
  proof (cases "input g ! i = secret g ! j")
    case False
    with Cons show ?thesis by auto
  next
    case True
    show ?thesis
    proof (cases "i = j")
      case True
      with \<open>input g ! i = secret g ! j\<close> Cons.prems show ?thesis by simp
    next
      case False
      let ?g = "g\<lparr>hints := (hints g)[i := HINT_MISPLACED]\<rparr>"
      have "i < length (hints ?g)" using Cons.prems by simp
      from Cons.IH [OF this] True False Cons.prems show ?thesis by auto
    qed
  qed
qed

lemma rows_frame [simp]:
  "input (checkInput_rows is g) = input g"
  "secret (checkInput_rows is g) = secret g"
  "state (checkInput_rows is g) = state g"
  "inputCount (checkInput_rows is g) = inputCount g"
  "tries (checkInput_rows is g) = tries g"
  "length (hints (checkInput_rows is g)) = length (hints g)"
  unfolding checkInput_rows_def by (induction "is" arbitrary: g; simp)+

lemma rows_result:
  "distinct is \<Longrightarrow> i < length (hints g) \<Longrightarrow>
   hints (checkInput_rows is g) ! i =
     (if i \<in> set is then
        (if i < SECRET_LENGTH \<and> input g ! i = secret g ! i then HINT_CORRECT
         else if \<exists>j<SECRET_LENGTH. input g ! i = secret g ! j then HINT_MISPLACED
         else hints g ! i)
      else hints g ! i)"
proof (induction "is" arbitrary: g)
  case Nil
  then show ?case by (simp add: checkInput_rows_def)
next
  case (Cons a as)
  let ?g = "checkInput_scan a [0..<SECRET_LENGTH] g"
  have unroll: "checkInput_rows (a # as) g = checkInput_rows as ?g"
    by (simp add: checkInput_rows_def)
  have len: "i < length (hints ?g)" using Cons.prems by simp
  have d: "distinct as" and na: "a \<notin> set as" using Cons.prems by auto
  show ?case
  proof (cases "i = a")
    case True
    with na have "i \<notin> set as" by simp
    with Cons.IH [OF d len] have "hints (checkInput_rows as ?g) ! i = hints ?g ! i" by simp
    also have "\<dots> =
      (if i \<in> set [0..<SECRET_LENGTH] \<and> input g ! i = secret g ! i then HINT_CORRECT
       else if \<exists>j\<in>set [0..<SECRET_LENGTH]. input g ! i = secret g ! j then HINT_MISPLACED
       else hints g ! i)"
      using scan_result [of i g "[0..<SECRET_LENGTH]"] Cons.prems True by simp
    finally show ?thesis using True unroll by auto
  next
    case False
    then have "hints ?g ! i = hints g ! i" by (simp add: scan_other)
    with Cons.IH [OF d len] False unroll show ?thesis by auto
  qed
qed

lemma checkInput_frame [simp]:
  "input (checkInput g) = input g"
  "secret (checkInput g) = secret g"
  "state (checkInput g) = state g"
  "inputCount (checkInput g) = inputCount g"
  "tries (checkInput g) = tries g"
  by (simp_all add: checkInput_def)

lemma checkInput_length:
  "length (hints g) = SECRET_LENGTH \<Longrightarrow> length (hints (checkInput g)) = SECRET_LENGTH"
  by (simp add: checkInput_def)

lemma checkInput_hint:
  assumes "length (hints g) = SECRET_LENGTH" "i < SECRET_LENGTH"
  shows "hints (checkInput g) ! i =
     (if input g ! i = secret g ! i then HINT_CORRECT
      else if \<exists>j<SECRET_LENGTH. input g ! i = secret g ! j then HINT_MISPLACED
      else HINT_WRONG)"
proof -
  let ?g = "g\<lparr>hints := replicate SECRET_LENGTH HINT_WRONG\<rparr>"
  have eq: "checkInput g = checkInput_rows [0..<SECRET_LENGTH] ?g"
    using assms(1) by (simp add: checkInput_def)
  have len: "i < length (hints ?g)" using assms(2) by simp
  have "hints (checkInput_rows [0..<SECRET_LENGTH] ?g) ! i =
     (if input g ! i = secret g ! i then HINT_CORRECT
      else if \<exists>j<SECRET_LENGTH. input g ! i = secret g ! j then HINT_MISPLACED
      else HINT_WRONG)"
    using rows_result [OF _ len, of "[0..<SECRET_LENGTH]"] assms(2) by auto
  then show ?thesis by (simp only: eq)
qed

lemma hint_chars_distinct [simp]:
  "HINT_CORRECT \<noteq> HINT_MISPLACED" "HINT_MISPLACED \<noteq> HINT_CORRECT"
  "HINT_CORRECT \<noteq> HINT_WRONG" "HINT_WRONG \<noteq> HINT_CORRECT"
  "HINT_MISPLACED \<noteq> HINT_WRONG" "HINT_WRONG \<noteq> HINT_MISPLACED"
  by (simp_all add: HINT_CORRECT_def HINT_MISPLACED_def HINT_WRONG_def)

text \<open>
  Claim C1. For a guess and a secret of \<open>SECRET_LENGTH\<close> digits, \<open>checkInput\<close> leaves
  \<open>SECRET_LENGTH\<close> hints, and the hint at position \<open>i\<close> is \<open>HINT_CORRECT\<close> exactly when
  the guess and the secret agree at \<open>i\<close>, \<open>HINT_MISPLACED\<close> exactly when they differ at \<open>i\<close>
  and the digit guessed at \<open>i\<close> stands at another position of the secret, and \<open>HINT_WRONG\<close>
  exactly when that digit stands nowhere in the secret. The hint at \<open>i\<close> depends on no
  other position of the guess, so one digit of the secret can give \<open>HINT_MISPLACED\<close> at
  several positions.
\<close>

theorem checkInput_classifies:
  assumes "wf_gameData g" and "i < SECRET_LENGTH"
  shows "length (hints (checkInput g)) = SECRET_LENGTH \<and>
    (hints (checkInput g) ! i = HINT_CORRECT \<longleftrightarrow> input g ! i = secret g ! i) \<and>
    (hints (checkInput g) ! i = HINT_MISPLACED \<longleftrightarrow>
       input g ! i \<noteq> secret g ! i \<and>
       (\<exists>j<SECRET_LENGTH. j \<noteq> i \<and> input g ! i = secret g ! j)) \<and>
    (hints (checkInput g) ! i = HINT_WRONG \<longleftrightarrow>
       (\<forall>j<SECRET_LENGTH. input g ! i \<noteq> secret g ! j)) \<and>
    hints (checkInput g) ! i \<in> {HINT_CORRECT, HINT_MISPLACED, HINT_WRONG}"
proof -
  have len: "length (hints g) = SECRET_LENGTH"
    using assms(1) by (simp add: wf_gameData_def)
  note h = checkInput_hint [OF len assms(2)]
  have "length (hints (checkInput g)) = SECRET_LENGTH"
    using len by (rule checkInput_length)
  moreover have "hints (checkInput g) ! i = HINT_CORRECT \<longleftrightarrow> input g ! i = secret g ! i"
    using h by simp
  moreover have "hints (checkInput g) ! i = HINT_MISPLACED \<longleftrightarrow>
       input g ! i \<noteq> secret g ! i \<and>
       (\<exists>j<SECRET_LENGTH. j \<noteq> i \<and> input g ! i = secret g ! j)"
    using h by auto
  moreover have "hints (checkInput g) ! i = HINT_WRONG \<longleftrightarrow>
       (\<forall>j<SECRET_LENGTH. input g ! i \<noteq> secret g ! j)"
    using h assms(2) by auto
  moreover have "hints (checkInput g) ! i \<in> {HINT_CORRECT, HINT_MISPLACED, HINT_WRONG}"
    using h by simp
  ultimately show ?thesis by blast
qed

text \<open>The examples of the specification, and one digit of the secret counted twice.\<close>

lemma checkInput_example_multicount: "hints (checkInput (guess_of ''1234'' ''2225'')) = [HINT_MISPLACED, HINT_CORRECT, HINT_MISPLACED, HINT_WRONG]"
  by code_simp

lemma checkInput_example_1243: "hints (checkInput (guess_of ''1234'' ''1243'')) = [HINT_CORRECT, HINT_CORRECT, HINT_MISPLACED, HINT_MISPLACED]"
  by code_simp

theorem checkInput_classifies_witness:
  "wf_gameData (guess_of ''1234'' ''2225'') \<and> (0::nat) < SECRET_LENGTH \<and> (2::nat) < SECRET_LENGTH \<and>
   hints (checkInput (guess_of ''1234'' ''2225'')) ! 0 = HINT_MISPLACED \<and>
   hints (checkInput (guess_of ''1234'' ''2225'')) ! 2 = HINT_MISPLACED \<and>
   input (guess_of ''1234'' ''2225'') ! 0 = secret (guess_of ''1234'' ''2225'') ! 1 \<and>
   input (guess_of ''1234'' ''2225'') ! 2 = secret (guess_of ''1234'' ''2225'') ! 1"
proof -
  let ?g = "guess_of ''1234'' ''2225''"
  have wf: "wf_gameData ?g" by (simp add: wf_gameData_def guess_of_def SECRET_LENGTH_def)
  have i0: "(0::nat) < SECRET_LENGTH" and i2: "(2::nat) < SECRET_LENGTH"
    by (simp_all add: SECRET_LENGTH_def)
  have e0: "\<exists>j<SECRET_LENGTH. j \<noteq> 0 \<and> input ?g ! 0 = secret ?g ! j"
    by (rule exI [of _ 1]) (simp add: guess_of_def SECRET_LENGTH_def)
  have e2: "\<exists>j<SECRET_LENGTH. j \<noteq> 2 \<and> input ?g ! 2 = secret ?g ! j"
    by (rule exI [of _ 1]) (simp add: guess_of_def SECRET_LENGTH_def)
  have n0: "input ?g ! 0 \<noteq> secret ?g ! 0" and n2: "input ?g ! 2 \<noteq> secret ?g ! 2"
    by (simp_all add: guess_of_def)
  from checkInput_classifies [OF wf i0] e0 n0
  have "hints (checkInput ?g) ! 0 = HINT_MISPLACED" by blast
  moreover from checkInput_classifies [OF wf i2] e2 n2
  have "hints (checkInput ?g) ! 2 = HINT_MISPLACED" by blast
  moreover have "input ?g ! 0 = secret ?g ! 1" "input ?g ! 2 = secret ?g ! 1"
    by (simp_all add: guess_of_def)
  ultimately show ?thesis using wf i0 i2 by blast
qed

section \<open>The shuffle\<close>

lemma randomNumber_zero [simp]: "randomNumber 0 e = (0, e)"
  by (simp add: randomNumber_def)

lemma randomNumber_less: "0 < n \<Longrightarrow> randomNumber n e = (r, e') \<Longrightarrow> r < n"
  by (auto simp: randomNumber_def random_n_def)

lemma randomNumber_bound: "randomNumber n e = (r, e') \<Longrightarrow> r + 1 \<le> max 1 n"
  by (cases "n = 0") (auto simp: randomNumber_def random_n_def Suc_le_eq max_def)

lemma shuffleSort_loop_mset:
  "shuffleSort_loop n arr e = Inr (arr', e') \<Longrightarrow> mset arr' = mset arr \<and> length arr' = length arr"
proof (induction n arbitrary: arr e)
  case 0
  then show ?case by simp
next
  case (Suc i)
  obtain r e1 where r: "randomNumber i e = (r, e1)" by (cases "randomNumber i e")
  let ?z = "r + 1"
  from Suc.prems r have ok: "i < length arr" "?z < length arr"
    and rec: "shuffleSort_loop i (arr[i := arr ! ?z, ?z := arr ! i]) e1 = Inr (arr', e')"
    by (auto simp: Let_def split: if_splits)
  from Suc.IH [OF rec] have "mset arr' = mset (arr[i := arr ! ?z, ?z := arr ! i])"
    and "length arr' = length arr" by simp_all
  moreover have "mset (arr[i := arr ! ?z, ?z := arr ! i]) = mset arr"
    using ok by (simp add: mset_swap)
  ultimately show ?case by simp
qed

lemma shuffleSort_loop_succeeds:
  "n \<le> length arr \<Longrightarrow> n = 0 \<or> 2 \<le> length arr \<Longrightarrow> \<exists>arr' e'. shuffleSort_loop n arr e = Inr (arr', e')"
proof (induction n arbitrary: arr e)
  case 0
  then show ?case by simp
next
  case (Suc i)
  obtain r e1 where r: "randomNumber i e = (r, e1)" by (cases "randomNumber i e")
  have i: "i < length arr" and two: "2 \<le> length arr" using Suc.prems by auto
  have z: "r + 1 < length arr"
  proof (cases "i = 0")
    case True
    with r two show ?thesis by simp
  next
    case False
    with randomNumber_less [OF _ r] i show ?thesis by simp
  qed
  let ?arr = "arr[i := arr ! (r + 1), r + 1 := arr ! i]"
  have "i \<le> length ?arr" "i = 0 \<or> 2 \<le> length ?arr" using i two by simp_all
  from Suc.IH [OF this] obtain arr' e' where "shuffleSort_loop i ?arr e1 = Inr (arr', e')" by blast
  with r i z show ?case by (simp add: Let_def)
qed

lemma swaps_fst: "map fst (shuffleSort_swaps n e) = rev [0..<n]"
proof (induction n arbitrary: e)
  case 0 show ?case by simp
next
  case (Suc i)
  obtain r e1 where r: "randomNumber i e = (r, e1)" by (cases "randomNumber i e")
  with Suc.IH [of e1] show ?case by simp
qed

lemma swaps_range:
  "(i, z) \<in> set (shuffleSort_swaps n e) \<Longrightarrow> i < n \<and> z \<noteq> 0 \<and> (0 < i \<longrightarrow> z \<le> i) \<and> (i = 0 \<longrightarrow> z = 1)"
proof (induction n arbitrary: e)
  case 0 then show ?case by simp
next
  case (Suc k)
  obtain r e1 where r: "randomNumber k e = (r, e1)" by (cases "randomNumber k e")
  from Suc.prems r have "(i, z) = (k, r + 1) \<or> (i, z) \<in> set (shuffleSort_swaps k e1)" by simp
  then show ?case
  proof
    assume "(i, z) = (k, r + 1)"
    then have ik: "i = k" and zr: "z = r + 1" by simp_all
    show ?thesis
    proof (cases "k = 0")
      case True
      with r ik zr show ?thesis by simp
    next
      case False
      with randomNumber_less [OF _ r] ik zr show ?thesis by simp
    qed
  next
    assume "(i, z) \<in> set (shuffleSort_swaps k e1)"
    from Suc.IH [OF this] show ?thesis by simp
  qed
qed

lemma swaps_last: "0 < n \<Longrightarrow> last (shuffleSort_swaps n e) = (0, 1)"
proof (induction n arbitrary: e)
  case 0 then show ?case by simp
next
  case (Suc k)
  obtain r e1 where r: "randomNumber k e = (r, e1)" by (cases "randomNumber k e")
  show ?case
  proof (cases "k = 0")
    case True with r show ?thesis by simp
  next
    case False
    then have "shuffleSort_swaps k e1 \<noteq> []" by (cases k) (auto split: prod.splits)
    with Suc.IH [of e1] False r show ?thesis by simp
  qed
qed

lemma shuffleSort_loop_is_swaps:
  "shuffleSort_loop n arr e = Inr (arr', e') \<Longrightarrow> arr' = foldl swap_at arr (shuffleSort_swaps n e)"
proof (induction n arbitrary: arr e)
  case 0 then show ?case by simp
next
  case (Suc i)
  obtain r e1 where r: "randomNumber i e = (r, e1)" by (cases "randomNumber i e")
  from Suc.prems r have rec: "shuffleSort_loop i (arr[i := arr ! (r + 1), r + 1 := arr ! i]) e1 = Inr (arr', e')"
    by (auto simp: Let_def split: if_splits)
  from Suc.IH [OF rec] r show ?case by (simp add: swap_at_def)
qed

text \<open>
  Claim C2, as stated, fails: the loop of \<open>shuffleSort\<close> does not stop at \<open>i = 1\<close>. With ten
  elements it runs a tenth iteration with \<open>i = 0\<close>, where \<open>z = 1\<close> lies outside \<open>[1, i]\<close>,
  and that iteration overwrites position 0.
\<close>

theorem shuffleSort_reaches_zero_counterexample:
  "length (shuffleSort_swaps DIGIT_COUNT zero_entropy) = 10 \<and>
   shuffleSort_swaps DIGIT_COUNT zero_entropy ! 9 = (0, 1) \<and>
   map_sum id fst (shuffleSort ''0123456789'' DIGIT_COUNT zero_entropy) = Inr ''2034567891''"
  by code_simp

text \<open>
  Claim C2, amended. \<open>shuffleSort(arr, n)\<close> runs its body for \<open>i\<close> from \<open>n - 1\<close> down to 0.
  At a step with \<open>i \<ge> 1\<close> the swap index \<open>z\<close> lies in \<open>[1, i]\<close>; at the last step, \<open>i = 0\<close>,
  \<open>randomNumber\<close> returns 0 and \<open>z = 1\<close>. No step has \<open>z = 0\<close>, so position 0 is written only
  as \<open>arr[i]\<close>, in the last step, which swaps positions 0 and 1. When no index leaves the
  array, the result is the array after these swaps, in this order.
\<close>

theorem shuffleSort_iterations:
  "map fst (shuffleSort_swaps n e) = rev [0..<n] \<and>
   (\<forall>(i, z) \<in> set (shuffleSort_swaps n e).
      z \<noteq> 0 \<and> (0 < i \<longrightarrow> 1 \<le> z \<and> z \<le> i) \<and> (i = 0 \<longrightarrow> z = 1)) \<and>
   (0 < n \<longrightarrow> last (shuffleSort_swaps n e) = (0, 1)) \<and>
   (\<forall>arr' e'. shuffleSort arr n e = Inr (arr', e') \<longrightarrow>
      arr' = foldl swap_at arr (shuffleSort_swaps n e))"
proof -
  have "\<forall>(i, z) \<in> set (shuffleSort_swaps n e).
      z \<noteq> 0 \<and> (0 < i \<longrightarrow> 1 \<le> z \<and> z \<le> i) \<and> (i = 0 \<longrightarrow> z = 1)"
    using swaps_range [of _ _ n e] by fastforce
  moreover have "\<forall>arr' e'. shuffleSort arr n e = Inr (arr', e') \<longrightarrow>
      arr' = foldl swap_at arr (shuffleSort_swaps n e)"
    using shuffleSort_loop_is_swaps by (simp add: shuffleSort_def)
  ultimately show ?thesis using swaps_fst [of n e] swaps_last [of n e] by blast
qed

theorem shuffleSort_iterations_witness:
  "(9, 1) \<in> set (shuffleSort_swaps DIGIT_COUNT zero_entropy) \<and>
   (0, 1) \<in> set (shuffleSort_swaps DIGIT_COUNT zero_entropy) \<and>
   0 < DIGIT_COUNT \<and>
   last (shuffleSort_swaps DIGIT_COUNT zero_entropy) = (0, 1) \<and>
   map fst (shuffleSort_swaps DIGIT_COUNT zero_entropy) = rev [0..<DIGIT_COUNT] \<and>
   map_sum id fst (shuffleSort ''0123456789'' DIGIT_COUNT zero_entropy) =
     Inr (foldl swap_at ''0123456789'' (shuffleSort_swaps DIGIT_COUNT zero_entropy))"
proof -
  note it = shuffleSort_iterations [of DIGIT_COUNT zero_entropy "''0123456789''"]
  have m: "(9, 1) \<in> set (shuffleSort_swaps DIGIT_COUNT zero_entropy)"
    "(0, 1) \<in> set (shuffleSort_swaps DIGIT_COUNT zero_entropy)"
    by code_simp+
  have pos: "0 < DIGIT_COUNT" by (simp add: DIGIT_COUNT_def)
  obtain arr' e' where r: "shuffleSort ''0123456789'' DIGIT_COUNT zero_entropy = Inr (arr', e')"
    using shuffleSort_loop_succeeds [of DIGIT_COUNT "''0123456789''" zero_entropy]
    by (auto simp: shuffleSort_def DIGIT_COUNT_def)
  with it have "arr' = foldl swap_at ''0123456789'' (shuffleSort_swaps DIGIT_COUNT zero_entropy)"
    by blast
  with r have "map_sum id fst (shuffleSort ''0123456789'' DIGIT_COUNT zero_entropy) =
     Inr (foldl swap_at ''0123456789'' (shuffleSort_swaps DIGIT_COUNT zero_entropy))" by simp
  with it m pos show ?thesis by blast
qed

lemma random_t_positive:
  "0 < i \<Longrightarrow> random_t i e = Inr (e 0 mod i, \<lambda>k. e (Suc k))"
  by (simp add: random_t_def)

lemma randomNumber_positive:
  "0 < i \<Longrightarrow> randomNumber i e = (e 0 mod i, \<lambda>k. e (Suc k))"
  by (simp add: randomNumber_def random_n_def)

lemma swaps_length: "length (shuffleSort_swaps n e) = n"
  using swaps_fst [of n e, THEN arg_cong, of length] by simp

text \<open>One step of the harness loop with \<open>i \<ge> 1\<close> inside the array swaps, prints and goes on.\<close>

lemma shuffleSort_t_loop_step:
  assumes "0 < i" "i < length arr"
  shows "shuffleSort_t_loop (Suc i) arr e out =
     shuffleSort_t_loop i (arr[i := arr ! (e 0 mod i + 1), e 0 mod i + 1 := arr ! i])
       (\<lambda>k. e (Suc k)) (out @ [(i, e 0 mod i + 1)])"
proof -
  have "e 0 mod i < i" using assms(1) by simp
  then have "e 0 mod i + 1 < length arr" using assms(2) by simp
  then show ?thesis using assms by (simp add: random_t_positive Let_def)
qed

text \<open>The step with \<open>i = 0\<close> divides by zero before it touches the array or prints.\<close>

lemma shuffleSort_t_loop_last_step:
  "shuffleSort_t_loop (Suc 0) arr e out = (Inl DivisionByZero, out)"
  by (simp add: random_t_def)

lemma shuffleSort_t_loop_traps:
  "0 < n \<Longrightarrow> n \<le> length arr \<Longrightarrow>
   shuffleSort_t_loop n arr e out =
     (Inl DivisionByZero, out @ butlast (shuffleSort_swaps n e))"
proof (induction n arbitrary: arr e out)
  case 0
  then show ?case by simp
next
  case (Suc i)
  show ?case
  proof (cases "i = 0")
    case True
    then show ?thesis by (simp add: random_t_def)
  next
    case False
    then have pos: "0 < i" by simp
    have i: "i < length arr" using Suc.prems by simp
    let ?z = "e 0 mod i + 1"
    let ?arr = "arr[i := arr ! ?z, ?z := arr ! i]"
    let ?e = "\<lambda>k. e (Suc k)"
    have "shuffleSort_t_loop (Suc i) arr e out = shuffleSort_t_loop i ?arr ?e (out @ [(i, ?z)])"
      using pos i by (rule shuffleSort_t_loop_step)
    also have "\<dots> = (Inl DivisionByZero, (out @ [(i, ?z)]) @ butlast (shuffleSort_swaps i ?e))"
      using pos i by (intro Suc.IH) simp_all
    finally have run: "shuffleSort_t_loop (Suc i) arr e out =
      (Inl DivisionByZero, out @ (i, ?z) # butlast (shuffleSort_swaps i ?e))" by simp
    have "shuffleSort_swaps i ?e \<noteq> []"
      using pos swaps_length [of i ?e] by auto
    then have "butlast (shuffleSort_swaps (Suc i) e) = (i, ?z) # butlast (shuffleSort_swaps i ?e)"
      using pos by (simp add: randomNumber_positive)
    with run show ?thesis by simp
  qed
qed

lemma butlast_swaps_fst:
  "map fst (butlast (shuffleSort_swaps n e)) = rev [1..<n]"
proof -
  have "map fst (butlast (shuffleSort_swaps n e)) = butlast (rev [0..<n])"
    by (simp add: map_butlast swaps_fst)
  also have "\<dots> = rev (tl [0..<n])" by (rule butlast_rev)
  also have "tl [0..<n] = [1..<n]" by (simp add: tl_upt)
  finally show ?thesis .
qed

text \<open>
  Claim C10. For every \<open>n \<ge> 1\<close> and an array of at least \<open>n\<close> elements, the copy of the
  shuffle in the test harness runs its steps for \<open>i\<close> from \<open>n - 1\<close> down to 1, each inside
  the array and each printing its pair \<open>(i, z)\<close> with \<open>z\<close> in \<open>[1, i]\<close>, and then ends in a
  division by zero: \<open>random\<close> returns for every positive argument, the step with \<open>i = 0\<close>
  evaluates \<open>random(0)\<close>, which is \<open>rand() % 0\<close>, and nothing guards it. The pairs printed
  are the steps of the sketch's shuffle on the same draws without its last one:
  \<open>randomNumber\<close> of the sketch returns 0 for 0 and draws nothing, so the last step of the
  sketch's shuffle has \<open>z = 1\<close> and swaps positions 0 and 1; with two or more elements the
  sketch's shuffle returns.
\<close>

theorem harness_shuffle_divides_by_zero:
  assumes "1 \<le> n" and "n \<le> length arr"
  shows "(\<exists>out. shuffleSort_t arr n e = (Inl DivisionByZero, out) \<and>
        map fst out = rev [1..<n] \<and>
        (\<forall>(i, z) \<in> set out. 1 \<le> i \<and> i < n \<and> 1 \<le> z \<and> z \<le> i) \<and>
        out @ [(0, 1)] = shuffleSort_swaps n e) \<and>
     (\<forall>i a e' out'. 0 < i \<and> i < length a \<longrightarrow>
        random_t i e' = Inr (e' 0 mod i, \<lambda>k. e' (Suc k)) \<and> e' 0 mod i < i \<and>
        shuffleSort_t_loop (Suc i) a e' out' =
          shuffleSort_t_loop i (a[i := a ! (e' 0 mod i + 1), e' 0 mod i + 1 := a ! i])
            (\<lambda>k. e' (Suc k)) (out' @ [(i, e' 0 mod i + 1)])) \<and>
     (\<forall>a e' out'. shuffleSort_t_loop (Suc 0) a e' out' = (Inl DivisionByZero, out')) \<and>
     random_t 0 e = Inl DivisionByZero \<and>
     randomNumber 0 e = (0, e) \<and>
     last (shuffleSort_swaps n e) = (0, 1) \<and>
     (2 \<le> length arr \<longrightarrow>
        (\<exists>arr' e'. shuffleSort arr n e = Inr (arr', e') \<and>
           arr' = foldl swap_at arr (shuffleSort_swaps n e)))"
proof -
  let ?out = "butlast (shuffleSort_swaps n e)"
  have pos: "0 < n" using assms(1) by simp
  have ne: "shuffleSort_swaps n e \<noteq> []" using pos swaps_length [of n e] by auto
  have run: "shuffleSort_t arr n e = (Inl DivisionByZero, ?out)"
    using pos assms(2) by (simp add: shuffleSort_t_def shuffleSort_t_loop_traps)
  have fsts: "map fst ?out = rev [1..<n]" by (rule butlast_swaps_fst)
  have rng: "\<forall>(i, z) \<in> set ?out. 1 \<le> i \<and> i < n \<and> 1 \<le> z \<and> z \<le> i"
  proof safe
    fix i z assume m: "(i, z) \<in> set ?out"
    then have "i \<in> set (map fst ?out)" by force
    then have i: "1 \<le> i" "i < n" unfolding fsts by simp_all
    from m have "(i, z) \<in> set (shuffleSort_swaps n e)" by (rule in_set_butlastD)
    from swaps_range [OF this] i have "1 \<le> z" "z \<le> i" by simp_all
    with i show "1 \<le> i" "i < n" "1 \<le> z" "z \<le> i" by simp_all
  qed
  have "?out @ [last (shuffleSort_swaps n e)] = shuffleSort_swaps n e"
    using ne by (rule append_butlast_last_id)
  then have app: "?out @ [(0, 1)] = shuffleSort_swaps n e" using pos by (simp add: swaps_last)
  have first: "\<exists>out. shuffleSort_t arr n e = (Inl DivisionByZero, out) \<and>
        map fst out = rev [1..<n] \<and>
        (\<forall>(i, z) \<in> set out. 1 \<le> i \<and> i < n \<and> 1 \<le> z \<and> z \<le> i) \<and>
        out @ [(0, 1)] = shuffleSort_swaps n e"
    using run fsts rng app by blast
  have steps: "\<forall>i a e' out'. 0 < i \<and> i < length a \<longrightarrow>
        random_t i e' = Inr (e' 0 mod i, \<lambda>k. e' (Suc k)) \<and> e' 0 mod i < i \<and>
        shuffleSort_t_loop (Suc i) a e' out' =
          shuffleSort_t_loop i (a[i := a ! (e' 0 mod i + 1), e' 0 mod i + 1 := a ! i])
            (\<lambda>k. e' (Suc k)) (out' @ [(i, e' 0 mod i + 1)])"
    using random_t_positive shuffleSort_t_loop_step by simp
  have last_step: "\<forall>a e' out'. shuffleSort_t_loop (Suc 0) a e' out' = (Inl DivisionByZero, out')"
    using shuffleSort_t_loop_last_step by simp
  have zero: "random_t 0 e = Inl DivisionByZero" by (simp add: random_t_def)
  have guard: "randomNumber 0 e = (0, e)" by simp
  have lst: "last (shuffleSort_swaps n e) = (0, 1)" using pos by (simp add: swaps_last)
  have sketch: "2 \<le> length arr \<longrightarrow>
        (\<exists>arr' e'. shuffleSort arr n e = Inr (arr', e') \<and>
           arr' = foldl swap_at arr (shuffleSort_swaps n e))"
  proof
    assume "2 \<le> length arr"
    with assms(2) obtain arr' e' where r: "shuffleSort_loop n arr e = Inr (arr', e')"
      using shuffleSort_loop_succeeds [of n arr e] by blast
    with shuffleSort_loop_is_swaps [OF r]
    show "\<exists>arr' e'. shuffleSort arr n e = Inr (arr', e') \<and>
           arr' = foldl swap_at arr (shuffleSort_swaps n e)"
      by (simp add: shuffleSort_def)
  qed
  from first steps last_step zero guard lst sketch show ?thesis by (intro conjI)
qed

theorem harness_shuffle_divides_by_zero_witness:
  "(1::nat) \<le> 10 \<and> 10 \<le> length ''0123456789'' \<and> 2 \<le> length ''0123456789'' \<and>
   shuffleSort_t ''0123456789'' 10 counting_entropy =
     (Inl DivisionByZero, [(9, 1), (8, 2), (7, 3), (6, 4), (5, 5), (4, 2), (3, 1), (2, 2), (1, 1)]) \<and>
   shuffleSort_swaps 10 counting_entropy =
     [(9, 1), (8, 2), (7, 3), (6, 4), (5, 5), (4, 2), (3, 1), (2, 2), (1, 1), (0, 1)] \<and>
   last (shuffleSort_swaps 10 counting_entropy) = (0, 1) \<and>
   map_sum id fst (shuffleSort ''0123456789'' 10 counting_entropy) = Inr ''7069854321''"
proof -
  have h1: "(1::nat) \<le> 10" and h2: "10 \<le> length ''0123456789''" and h3: "2 \<le> length ''0123456789''"
    by simp_all
  from harness_shuffle_divides_by_zero [OF h1 h2, of counting_entropy]
  obtain out where run: "shuffleSort_t ''0123456789'' 10 counting_entropy = (Inl DivisionByZero, out)"
    and app: "out @ [(0, 1)] = shuffleSort_swaps 10 counting_entropy"
    and lst: "last (shuffleSort_swaps 10 counting_entropy) = (0, 1)"
    by blast
  have sw: "shuffleSort_swaps 10 counting_entropy =
     [(9, 1), (8, 2), (7, 3), (6, 4), (5, 5), (4, 2), (3, 1), (2, 2), (1, 1), (0, 1)]"
    by code_simp
  from app have "out = butlast (shuffleSort_swaps 10 counting_entropy)"
    by (metis butlast_snoc)
  then have "out = [(9, 1), (8, 2), (7, 3), (6, 4), (5, 5), (4, 2), (3, 1), (2, 2), (1, 1)]"
    unfolding sw by simp
  with run have r: "shuffleSort_t ''0123456789'' 10 counting_entropy =
     (Inl DivisionByZero, [(9, 1), (8, 2), (7, 3), (6, 4), (5, 5), (4, 2), (3, 1), (2, 2), (1, 1)])"
    by simp
  have v: "map_sum id fst (shuffleSort ''0123456789'' 10 counting_entropy) = Inr ''7069854321''"
    by code_simp
  from h1 h2 h3 r sw lst v show ?thesis by (intro conjI)
qed

section \<open>Secrets, rounds and games\<close>

lemma copy_fold_length [simp]: "length (foldl (\<lambda>s i. s[i := pool ! i]) s is) = length s"
  by (induction "is" arbitrary: s) auto

lemma copy_fold_nth:
  "k < length s \<Longrightarrow>
   foldl (\<lambda>s i. s[i := pool ! i]) s [0..<n] ! k = (if k < n then pool ! k else s ! k)"
proof (induction n)
  case 0
  show ?case by simp
next
  case (Suc n)
  show ?case
  proof (cases "k = n")
    case True
    with Suc.prems show ?thesis by simp
  next
    case False
    with Suc show ?thesis by (auto simp: less_Suc_eq)
  qed
qed

lemma copy_pool_take:
  assumes "length s = SECRET_LENGTH" "SECRET_LENGTH \<le> length pool"
  shows "copy_pool pool s = take SECRET_LENGTH pool"
proof (rule nth_equalityI)
  show "length (copy_pool pool s) = length (take SECRET_LENGTH pool)"
    using assms by (simp add: copy_pool_def)
next
  fix k assume "k < length (copy_pool pool s)"
  then have k: "k < SECRET_LENGTH" using assms by (simp add: copy_pool_def)
  then show "copy_pool pool s ! k = take SECRET_LENGTH pool ! k"
    using assms by (simp add: copy_pool_def copy_fold_nth)
qed

lemma generateSecret_False:
  assumes "length (randomDigitPool w) = DIGIT_COUNT" "length (secret (gd w)) = SECRET_LENGTH"
  shows "\<exists>pool' e'. shuffleSort (randomDigitPool w) DIGIT_COUNT (rng w) = Inr (pool', e') \<and>
     mset pool' = mset (randomDigitPool w) \<and> length pool' = DIGIT_COUNT \<and>
     generateSecret False w =
       Inr (w\<lparr>gd := (gd w)\<lparr>secret := take SECRET_LENGTH pool'\<rparr>, randomDigitPool := pool', rng := e'\<rparr>)"
proof -
  obtain pool' e' where r: "shuffleSort_loop DIGIT_COUNT (randomDigitPool w) (rng w) = Inr (pool', e')"
    using shuffleSort_loop_succeeds [of DIGIT_COUNT "randomDigitPool w" "rng w"] assms(1)
    by (auto simp: DIGIT_COUNT_def)
  from shuffleSort_loop_mset [OF r] assms(1)
  have m: "mset pool' = mset (randomDigitPool w)" and l: "length pool' = DIGIT_COUNT" by simp_all
  have le: "SECRET_LENGTH \<le> length pool'" using l by (simp add: SECRET_LENGTH_def DIGIT_COUNT_def)
  have "copy_pool pool' (secret (gd w)) = take SECRET_LENGTH pool'"
    using assms(2) le by (rule copy_pool_take)
  with r le have "generateSecret False w =
       Inr (w\<lparr>gd := (gd w)\<lparr>secret := take SECRET_LENGTH pool'\<rparr>, randomDigitPool := pool', rng := e'\<rparr>)"
    by (simp add: generateSecret_def shuffleSort_def)
  with r m l show ?thesis by (auto simp: shuffleSort_def)
qed

lemma digits_length: "mset pool = mset ''0123456789'' \<Longrightarrow> length pool = DIGIT_COUNT"
  using mset_eq_length [of pool "''0123456789''"] by (simp add: DIGIT_COUNT_def)

lemma digits_distinct: "mset pool = mset ''0123456789'' \<Longrightarrow> distinct pool"
  using mset_eq_imp_distinct_iff [of pool "''0123456789''"] by simp

lemma newGame_result:
  assumes "wf_gameData (gd w)" "mset (randomDigitPool w) = mset ''0123456789''"
  shows "\<exists>w' w1. newGame w = Inr w' \<and> session_inv w' \<and>
     generateSecret False (w\<lparr>lcdMessage := []\<rparr>) = Inr w1 \<and>
     secret (gd w') = secret (gd w1) \<and> randomDigitPool w' = randomDigitPool w1 \<and>
     rng w' = rng w1 \<and>
     tries (gd w') = 0 \<and> inputCount (gd w') = 0 \<and> state (gd w') = GS_INPUT \<and>
     input (gd w') = input (gd w) \<and> hints (gd w') = hints (gd w) \<and>
     \<not> ledWin w' \<and> \<not> ledLose w' \<and> lcdMessage w' = []"
proof -
  let ?w = "w\<lparr>lcdMessage := []\<rparr>"
  have "length (randomDigitPool ?w) = DIGIT_COUNT" using assms(2) by (simp add: digits_length)
  moreover have "length (secret (gd ?w)) = SECRET_LENGTH" using assms(1) by (simp add: wf_gameData_def)
  ultimately obtain pool' e' where
    m: "mset pool' = mset (randomDigitPool ?w)" and
    g: "generateSecret False ?w =
       Inr (?w\<lparr>gd := (gd ?w)\<lparr>secret := take SECRET_LENGTH pool'\<rparr>, randomDigitPool := pool', rng := e'\<rparr>)"
    using generateSecret_False [of ?w] by blast
  have l: "length pool' = DIGIT_COUNT" using m assms(2) by (simp add: digits_length)
  show ?thesis
    using g m l assms
    by (simp add: newGame_def resetInput_def session_inv_def wf_gameData_def
        SECRET_LENGTH_def DIGIT_COUNT_def TRIES_MAX_def)
qed

lemma resetInput_inv:
  "session_inv w \<Longrightarrow> state (gd w) \<noteq> GS_GAMEOVER \<Longrightarrow> session_inv (resetInput w)"
  by (auto simp: session_inv_def resetInput_def wf_gameData_def SECRET_LENGTH_def)

lemma isSecretSolved_from_iff:
  "isSecretSolved_from i k hs \<longleftrightarrow> (\<forall>j. i \<le> j \<and> j < i + k \<longrightarrow> hs ! j = HINT_CORRECT)"
proof (induction k arbitrary: i)
  case 0 show ?case by auto
next
  case (Suc k)
  have "(\<forall>j. i \<le> j \<and> j < i + Suc k \<longrightarrow> hs ! j = HINT_CORRECT) \<longleftrightarrow>
        hs ! i = HINT_CORRECT \<and> (\<forall>j. Suc i \<le> j \<and> j < Suc i + k \<longrightarrow> hs ! j = HINT_CORRECT)"
  proof -
    have "\<And>j. (i \<le> j \<and> j < i + Suc k) = (j = i \<or> (Suc i \<le> j \<and> j < Suc i + k))" by arith
    then show ?thesis by auto
  qed
  with Suc.IH [of "Suc i"] show ?case by simp
qed

lemma isSecretSolved_iff: "isSecretSolved hs n \<longleftrightarrow> (\<forall>j<n. hs ! j = HINT_CORRECT)"
  by (simp add: isSecretSolved_def isSecretSolved_from_iff)

lemma isSolved_iff: "isSolved g \<longleftrightarrow> (\<forall>j<SECRET_LENGTH. hints g ! j = HINT_CORRECT)"
  by (simp add: isSolved_def isSecretSolved_iff)

lemma isSolved_state [simp]: "isSolved (g\<lparr>state := s\<rparr>) = isSolved g"
  by (simp add: isSolved_def)

lemma incr16_small: "n < 65535 \<Longrightarrow> incr16 n = n + 1"
  by (simp add: incr16_def)

lemma key_facts [simp]:
  "BUTTON_NEWROUND \<noteq> NO_KEY" "BUTTON_NEWGAME \<noteq> NO_KEY" "BUTTON_NEWGAME \<noteq> BUTTON_NEWROUND"
  "\<not> CHR ''0'' \<le> BUTTON_NEWROUND" "\<not> CHR ''0'' \<le> BUTTON_NEWGAME" "\<not> CHR ''0'' \<le> NO_KEY"
  by (simp_all add: BUTTON_NEWROUND_def BUTTON_NEWGAME_def NO_KEY_def)

lemma loop_newround:
  "loop BUTTON_NEWROUND w =
     (if state (gd w) = GS_GAMEOVER then newGame w else Inr (resetInput w))"
  by (cases "state (gd w)") (simp_all add: loop_def)

lemma loop_newgame: "loop BUTTON_NEWGAME w = newGame w"
  by (simp add: loop_def)

lemma loop_ignored:
  "\<not> (state (gd w) = GS_INPUT \<and> CHR ''0'' \<le> key \<and> key \<le> CHR ''9'') \<Longrightarrow>
   key \<noteq> BUTTON_NEWROUND \<Longrightarrow> key \<noteq> BUTTON_NEWGAME \<Longrightarrow> loop key w = Inr w"
  by (auto simp: loop_def)

lemma loop_evaluate_cases:
  "loop_evaluate w =
     (let g = checkInput ((gd w)\<lparr>tries := incr16 (tries (gd w))\<rparr>) in
      if isSolved g then
        w\<lparr>gd := g\<lparr>state := GS_GAMEOVER\<rparr>, lcdMessage := MESSAGE_WIN, ledWin := True\<rparr>
      else if TRIES_MAX \<le> incr16 (tries (gd w)) then
        w\<lparr>gd := g\<lparr>state := GS_GAMEOVER\<rparr>, lcdMessage := MESSAGE_LOSE, ledLose := True\<rparr>
      else
        w\<lparr>gd := g\<lparr>state := GS_ROUNDOVER\<rparr>, lcdMessage := MESSAGE_NEXTTRY\<rparr>)"
  by (simp add: loop_evaluate_def Let_def)

lemma loop_evaluate_inv:
  assumes "wf_gameData (gd w)" "mset (randomDigitPool w) = mset ''0123456789''"
    "secret (gd w) = take SECRET_LENGTH (randomDigitPool w)"
    "inputCount (gd w) \<le> SECRET_LENGTH" "tries (gd w) < TRIES_MAX"
  shows "session_inv (loop_evaluate w)"
proof -
  let ?g = "checkInput ((gd w)\<lparr>tries := incr16 (tries (gd w))\<rparr>)"
  have t: "incr16 (tries (gd w)) = tries (gd w) + 1"
    using assms(5) by (simp add: incr16_small TRIES_MAX_def)
  have wf: "wf_gameData ?g"
    using assms(1) by (simp add: wf_gameData_def checkInput_length)
  show ?thesis
    using wf assms t
    by (simp add: loop_evaluate_cases Let_def session_inv_def wf_gameData_def)
qed

lemma loop_inv:
  assumes "session_inv w"
  shows "\<exists>w'. loop key w = Inr w' \<and> session_inv w'"
proof -
  from assms have wf: "wf_gameData (gd w)" and pool: "mset (randomDigitPool w) = mset ''0123456789''"
    and sec: "secret (gd w) = take SECRET_LENGTH (randomDigitPool w)"
    and ic: "state (gd w) = GS_INPUT \<longrightarrow> inputCount (gd w) < SECRET_LENGTH"
    and tr: "state (gd w) \<noteq> GS_GAMEOVER \<longrightarrow> tries (gd w) < TRIES_MAX"
    by (simp_all add: session_inv_def)
  consider (nokey) "key = NO_KEY"
    | (digit) "key \<noteq> NO_KEY" "state (gd w) = GS_INPUT" "CHR ''0'' \<le> key \<and> key \<le> CHR ''9''"
    | (round) "key \<noteq> NO_KEY" "\<not> (state (gd w) = GS_INPUT \<and> CHR ''0'' \<le> key \<and> key \<le> CHR ''9'')"
        "key = BUTTON_NEWROUND" "state (gd w) \<noteq> GS_GAMEOVER"
    | (game) "key \<noteq> NO_KEY" "\<not> (state (gd w) = GS_INPUT \<and> CHR ''0'' \<le> key \<and> key \<le> CHR ''9'')"
        "(key = BUTTON_NEWROUND \<and> state (gd w) = GS_GAMEOVER) \<or> (key \<noteq> BUTTON_NEWROUND \<and> key = BUTTON_NEWGAME)"
    | (other) "key \<noteq> NO_KEY" "\<not> (state (gd w) = GS_INPUT \<and> CHR ''0'' \<le> key \<and> key \<le> CHR ''9'')"
        "key \<noteq> BUTTON_NEWROUND" "key \<noteq> BUTTON_NEWGAME"
    by blast
  then show ?thesis
  proof cases
    case nokey
    with assms show ?thesis by (simp add: loop_def)
  next
    case digit
    let ?n = "inputCount (gd w)"
    let ?w1 = "w\<lparr>gd := (gd w)\<lparr>input := (input (gd w))[?n := key], inputCount := incr16 ?n\<rparr>\<rparr>"
    have n: "?n < SECRET_LENGTH" using ic digit by simp
    then have inc: "incr16 ?n = ?n + 1" by (simp add: incr16_small SECRET_LENGTH_def)
    have l: "loop key w = Inr (if SECRET_LENGTH \<le> inputCount (gd ?w1) then loop_evaluate ?w1 else ?w1)"
      using digit n by (simp add: loop_def Let_def)
    have "session_inv (if SECRET_LENGTH \<le> inputCount (gd ?w1) then loop_evaluate ?w1 else ?w1)"
    proof (cases "SECRET_LENGTH \<le> inputCount (gd ?w1)")
      case True
      have "session_inv (loop_evaluate ?w1)"
        using wf pool sec n inc tr digit
        by (intro loop_evaluate_inv) (simp_all add: wf_gameData_def)
      with True show ?thesis by simp
    next
      case False
      with assms digit inc digits_length [OF pool] show ?thesis
        by (simp add: session_inv_def wf_gameData_def SECRET_LENGTH_def DIGIT_COUNT_def)
    qed
    with l show ?thesis by simp
  next
    case round
    then have "loop key w = Inr (resetInput w)"
      by (simp add: loop_newround)
    with resetInput_inv [OF assms round(4)] show ?thesis by simp
  next
    case game
    then have "loop key w = newGame w" by (auto simp: loop_newround loop_newgame)
    with newGame_result [OF wf pool] show ?thesis by auto
  next
    case other
    then have "loop key w = Inr w" by (intro loop_ignored)
    with assms show ?thesis by simp
  qed
qed

lemma run_inv: "session_inv w \<Longrightarrow> \<exists>w'. run ks w = Inr w' \<and> session_inv w'"
proof (induction ks arbitrary: w)
  case Nil
  then show ?case by simp
next
  case (Cons k ks)
  from loop_inv [OF Cons.prems, of k] obtain w1 where "loop k w = Inr w1" "session_inv w1" by blast
  with Cons.IH [of w1] show ?case by simp
qed

lemma startup_inv: "\<exists>w. startup e = Inr w \<and> session_inv w"
proof -
  have "wf_gameData (gd (initial_world e))" by (simp add: initial_world_def wf_gameData_def)
  moreover have "mset (randomDigitPool (initial_world e)) = mset ''0123456789''"
    by (simp add: initial_world_def)
  ultimately show ?thesis using newGame_result [of "initial_world e"] by (auto simp: startup_def)
qed

lemma session_inv_holds: "\<exists>w. session e ks = Inr w \<and> session_inv w"
proof -
  from startup_inv [of e] obtain w0 where "startup e = Inr w0" "session_inv w0" by blast
  with run_inv [of w0 ks] show ?thesis by (auto simp: session_def)
qed

section \<open>Key events\<close>

lemma messages_distinct [simp]:
  "MESSAGE_WIN \<noteq> MESSAGE_LOSE" "MESSAGE_WIN \<noteq> MESSAGE_NEXTTRY" "MESSAGE_LOSE \<noteq> MESSAGE_NEXTTRY"
  "MESSAGE_LOSE \<noteq> MESSAGE_WIN" "MESSAGE_NEXTTRY \<noteq> MESSAGE_WIN" "MESSAGE_NEXTTRY \<noteq> MESSAGE_LOSE"
  by (simp_all add: MESSAGE_WIN_def MESSAGE_LOSE_def MESSAGE_NEXTTRY_def)

lemma loop_completing_digit:
  assumes "state (gd w) = GS_INPUT" "CHR ''0'' \<le> key \<and> key \<le> CHR ''9''"
    "Suc (inputCount (gd w)) = SECRET_LENGTH"
  shows "loop key w =
     Inr (loop_evaluate (w\<lparr>gd := (gd w)\<lparr>input := (input (gd w))[inputCount (gd w) := key],
                                          inputCount := SECRET_LENGTH\<rparr>\<rparr>))"
proof -
  have n: "inputCount (gd w) < SECRET_LENGTH" using assms(3) by simp
  have "incr16 (inputCount (gd w)) = SECRET_LENGTH"
    using assms(3) by (simp add: incr16_def SECRET_LENGTH_def)
  moreover have "key \<noteq> NO_KEY" using assms(2) by auto
  ultimately show ?thesis using assms(1,2) n by (simp add: loop_def Let_def)
qed

lemma incr16_values: "incr16 10 = 11" "incr16 11 = 12"
  by (simp_all add: incr16_def)

lemma world_at_completed:
  "(gd (world_at t i))\<lparr>input := (input (gd (world_at t i)))[inputCount (gd (world_at t i)) := k],
      inputCount := SECRET_LENGTH, tries := t'\<rparr> =
   (guess_of ''1234'' (i[3 := k]))\<lparr>tries := t'\<rparr>"
  by (simp add: world_at_def guess_of_def)

lemma world_at_ready:
  "state (gd (world_at t i)) = GS_INPUT" "Suc (inputCount (gd (world_at t i))) = SECRET_LENGTH"
  by (simp_all add: world_at_def SECRET_LENGTH_def)

lemma hints_1234: "hints (checkInput ((guess_of ''1234'' (''1230''[3 := CHR ''4'']))\<lparr>tries := t\<rparr>)) = replicate SECRET_LENGTH HINT_CORRECT"
  by code_simp

lemma hints_1235: "hints (checkInput ((guess_of ''1234'' (''1230''[3 := CHR ''5'']))\<lparr>tries := t\<rparr>)) ! 3 = HINT_WRONG"
  by code_simp


text \<open>
  Claim C3. When a digit key completes the guess, the try count is incremented and the
  guess is checked. The game is won (state \<open>GS_GAMEOVER\<close>, win message and win diode)
  exactly when every hint is \<open>HINT_CORRECT\<close>, which is what \<open>isSecretSolved\<close> tests;
  otherwise it is lost (state \<open>GS_GAMEOVER\<close>, lose message and lose diode) exactly when
  the incremented try count is at least \<open>TRIES_MAX\<close>; otherwise the round is over (state
  \<open>GS_ROUNDOVER\<close>). A solved guess wins whatever the try count is.
\<close>

theorem evaluation_outcome:
  assumes "state (gd w) = GS_INPUT" and "CHR ''0'' \<le> key \<and> key \<le> CHR ''9''"
    and "Suc (inputCount (gd w)) = SECRET_LENGTH"
  shows "\<exists>w' g. loop key w = Inr w' \<and>
     g = checkInput ((gd w)\<lparr>input := (input (gd w))[inputCount (gd w) := key],
                            inputCount := SECRET_LENGTH, tries := incr16 (tries (gd w))\<rparr>) \<and>
     hints (gd w') = hints g \<and> tries (gd w') = incr16 (tries (gd w)) \<and>
     (isSecretSolved (hints g) SECRET_LENGTH \<longleftrightarrow> (\<forall>i<SECRET_LENGTH. hints g ! i = HINT_CORRECT)) \<and>
     (\<forall>hs n. n \<le> length hs \<longrightarrow> (isSecretSolved hs n \<longleftrightarrow> (\<forall>i<n. hs ! i = HINT_CORRECT))) \<and>
     (state (gd w') = GS_GAMEOVER \<and> lcdMessage w' = MESSAGE_WIN \<and> ledWin w' \<longleftrightarrow>
        (\<forall>i<SECRET_LENGTH. hints g ! i = HINT_CORRECT)) \<and>
     (state (gd w') = GS_GAMEOVER \<and> lcdMessage w' = MESSAGE_LOSE \<and> ledLose w' \<longleftrightarrow>
        \<not> (\<forall>i<SECRET_LENGTH. hints g ! i = HINT_CORRECT) \<and> TRIES_MAX \<le> incr16 (tries (gd w))) \<and>
     (state (gd w') = GS_ROUNDOVER \<and> lcdMessage w' = MESSAGE_NEXTTRY \<longleftrightarrow>
        \<not> (\<forall>i<SECRET_LENGTH. hints g ! i = HINT_CORRECT) \<and> incr16 (tries (gd w)) < TRIES_MAX)"
proof -
  let ?w1 = "w\<lparr>gd := (gd w)\<lparr>input := (input (gd w))[inputCount (gd w) := key],
                              inputCount := SECRET_LENGTH\<rparr>\<rparr>"
  let ?g = "checkInput ((gd w)\<lparr>input := (input (gd w))[inputCount (gd w) := key],
                            inputCount := SECRET_LENGTH, tries := incr16 (tries (gd w))\<rparr>)"
  let ?all = "\<forall>i<SECRET_LENGTH. hints ?g ! i = HINT_CORRECT"
  have l: "loop key w = Inr (loop_evaluate ?w1)" using assms by (rule loop_completing_digit)
  have s: "isSolved ?g \<longleftrightarrow> ?all" by (rule isSolved_iff)
  have s': "isSecretSolved (hints ?g) SECRET_LENGTH \<longleftrightarrow> ?all" by (rule isSecretSolved_iff)
  have s'': "\<forall>hs n. n \<le> length hs \<longrightarrow> (isSecretSolved hs n \<longleftrightarrow> (\<forall>i<n. hs ! i = HINT_CORRECT))"
    by (simp add: isSecretSolved_iff)
  have h: "hints (gd (loop_evaluate ?w1)) = hints ?g"
    and t: "tries (gd (loop_evaluate ?w1)) = incr16 (tries (gd w))"
    by (simp_all add: loop_evaluate_cases Let_def)
  have won: "state (gd (loop_evaluate ?w1)) = GS_GAMEOVER \<and>
      lcdMessage (loop_evaluate ?w1) = MESSAGE_WIN \<and> ledWin (loop_evaluate ?w1) \<longleftrightarrow> ?all"
    using s by (simp add: loop_evaluate_cases Let_def)
  have lost: "state (gd (loop_evaluate ?w1)) = GS_GAMEOVER \<and>
      lcdMessage (loop_evaluate ?w1) = MESSAGE_LOSE \<and> ledLose (loop_evaluate ?w1) \<longleftrightarrow>
      \<not> ?all \<and> TRIES_MAX \<le> incr16 (tries (gd w))"
    using s by (simp add: loop_evaluate_cases Let_def)
  have cont: "state (gd (loop_evaluate ?w1)) = GS_ROUNDOVER \<and>
      lcdMessage (loop_evaluate ?w1) = MESSAGE_NEXTTRY \<longleftrightarrow>
      \<not> ?all \<and> incr16 (tries (gd w)) < TRIES_MAX"
    using s by (auto simp: loop_evaluate_cases Let_def)
  from l h t s' s'' won lost cont show ?thesis by blast
qed

theorem evaluation_outcome_witness:
  "(\<exists>w'. loop (CHR ''4'') (world_at 11 ''1230'') = Inr w' \<and> tries (gd w') = 12 \<and>
      state (gd w') = GS_GAMEOVER \<and> lcdMessage w' = MESSAGE_WIN \<and> ledWin w') \<and>
   (\<exists>w'. loop (CHR ''5'') (world_at 11 ''1230'') = Inr w' \<and> tries (gd w') = 12 \<and>
      state (gd w') = GS_GAMEOVER \<and> lcdMessage w' = MESSAGE_LOSE \<and> ledLose w') \<and>
   (\<exists>w'. loop (CHR ''5'') (world_at 10 ''1230'') = Inr w' \<and> tries (gd w') = 11 \<and>
      state (gd w') = GS_ROUNDOVER \<and> lcdMessage w' = MESSAGE_NEXTTRY)"
proof -
  have d4: "CHR ''0'' \<le> CHR ''4'' \<and> CHR ''4'' \<le> CHR ''9''"
    and d5: "CHR ''0'' \<le> CHR ''5'' \<and> CHR ''5'' \<le> CHR ''9''" by simp_all
  have t: "tries (gd (world_at 11 ''1230'')) = 11" "tries (gd (world_at 10 ''1230'')) = 10"
    by (simp_all add: world_at_def)
  have three: "(3::nat) < SECRET_LENGTH" by (simp add: SECRET_LENGTH_def)
  have won: "\<exists>w'. loop (CHR ''4'') (world_at 11 ''1230'') = Inr w' \<and> tries (gd w') = 12 \<and>
      state (gd w') = GS_GAMEOVER \<and> lcdMessage w' = MESSAGE_WIN \<and> ledWin w'"
  proof -
    from evaluation_outcome [OF world_at_ready(1) d4 world_at_ready(2), of 11 "''1230''"]
    obtain w' g where l: "loop (CHR ''4'') (world_at 11 ''1230'') = Inr w'"
      and g: "g = checkInput ((guess_of ''1234'' (''1230''[3 := CHR ''4'']))\<lparr>tries := 12\<rparr>)"
      and tr: "tries (gd w') = 12"
      and iff: "state (gd w') = GS_GAMEOVER \<and> lcdMessage w' = MESSAGE_WIN \<and> ledWin w' \<longleftrightarrow>
        (\<forall>i<SECRET_LENGTH. hints g ! i = HINT_CORRECT)"
      unfolding world_at_completed t incr16_values by (elim exE conjE)
    have "hints g = replicate SECRET_LENGTH HINT_CORRECT" unfolding g by (rule hints_1234)
    then have "\<forall>i<SECRET_LENGTH. hints g ! i = HINT_CORRECT" by simp
    with iff l tr show ?thesis by blast
  qed
  have lost: "\<exists>w'. loop (CHR ''5'') (world_at 11 ''1230'') = Inr w' \<and> tries (gd w') = 12 \<and>
      state (gd w') = GS_GAMEOVER \<and> lcdMessage w' = MESSAGE_LOSE \<and> ledLose w'"
  proof -
    from evaluation_outcome [OF world_at_ready(1) d5 world_at_ready(2), of 11 "''1230''"]
    obtain w' g where l: "loop (CHR ''5'') (world_at 11 ''1230'') = Inr w'"
      and g: "g = checkInput ((guess_of ''1234'' (''1230''[3 := CHR ''5'']))\<lparr>tries := 12\<rparr>)"
      and tr: "tries (gd w') = 12"
      and iff: "state (gd w') = GS_GAMEOVER \<and> lcdMessage w' = MESSAGE_LOSE \<and> ledLose w' \<longleftrightarrow>
        \<not> (\<forall>i<SECRET_LENGTH. hints g ! i = HINT_CORRECT) \<and> TRIES_MAX \<le> 12"
      unfolding world_at_completed t incr16_values by (elim exE conjE)
    have "hints g ! 3 = HINT_WRONG" unfolding g by (rule hints_1235)
    with three have "\<not> (\<forall>i<SECRET_LENGTH. hints g ! i = HINT_CORRECT)" by auto
    moreover have "TRIES_MAX \<le> 12" by (simp add: TRIES_MAX_def)
    ultimately show ?thesis using iff l tr by blast
  qed
  have cont: "\<exists>w'. loop (CHR ''5'') (world_at 10 ''1230'') = Inr w' \<and> tries (gd w') = 11 \<and>
      state (gd w') = GS_ROUNDOVER \<and> lcdMessage w' = MESSAGE_NEXTTRY"
  proof -
    from evaluation_outcome [OF world_at_ready(1) d5 world_at_ready(2), of 10 "''1230''"]
    obtain w' g where l: "loop (CHR ''5'') (world_at 10 ''1230'') = Inr w'"
      and g: "g = checkInput ((guess_of ''1234'' (''1230''[3 := CHR ''5'']))\<lparr>tries := 11\<rparr>)"
      and tr: "tries (gd w') = 11"
      and iff: "state (gd w') = GS_ROUNDOVER \<and> lcdMessage w' = MESSAGE_NEXTTRY \<longleftrightarrow>
        \<not> (\<forall>i<SECRET_LENGTH. hints g ! i = HINT_CORRECT) \<and> 11 < TRIES_MAX"
      unfolding world_at_completed t incr16_values by (elim exE conjE)
    have "hints g ! 3 = HINT_WRONG" unfolding g by (rule hints_1235)
    with three have "\<not> (\<forall>i<SECRET_LENGTH. hints g ! i = HINT_CORRECT)" by auto
    moreover have "11 < TRIES_MAX" by (simp add: TRIES_MAX_def)
    ultimately show ?thesis using iff l tr by blast
  qed
  from won lost cont show ?thesis by blast
qed

lemma loop_evaluate_tries:
  assumes "tries (gd w) < TRIES_MAX"
  shows "tries (gd (loop_evaluate w)) = tries (gd w) + 1 \<and>
     (state (gd (loop_evaluate w)) = GS_GAMEOVER \<longleftrightarrow>
        isSolved (gd (loop_evaluate w)) \<or> tries (gd (loop_evaluate w)) = TRIES_MAX) \<and>
     (state (gd (loop_evaluate w)) \<noteq> GS_GAMEOVER \<longrightarrow> state (gd (loop_evaluate w)) = GS_ROUNDOVER)"
proof -
  have t: "incr16 (tries (gd w)) = tries (gd w) + 1"
    using assms by (simp add: incr16_small TRIES_MAX_def)
  have "TRIES_MAX \<le> tries (gd w) + 1 \<longleftrightarrow> tries (gd w) + 1 = TRIES_MAX" using assms by auto
  with t show ?thesis by (simp add: loop_evaluate_cases Let_def)
qed

lemma loop_tries:
  assumes "session_inv w" "loop key w = Inr w'"
  shows "tries (gd w') = tries (gd w) \<or> tries (gd w') = 0 \<or>
     (tries (gd w') = tries (gd w) + 1 \<and>
      (state (gd w') = GS_GAMEOVER \<longleftrightarrow> isSolved (gd w') \<or> tries (gd w') = TRIES_MAX) \<and>
      (state (gd w') \<noteq> GS_GAMEOVER \<longrightarrow> state (gd w') = GS_ROUNDOVER))"
proof -
  from assms(1) have wf: "wf_gameData (gd w)" and pool: "mset (randomDigitPool w) = mset ''0123456789''"
    and ic: "state (gd w) = GS_INPUT \<longrightarrow> inputCount (gd w) < SECRET_LENGTH"
    and tr: "state (gd w) \<noteq> GS_GAMEOVER \<longrightarrow> tries (gd w) < TRIES_MAX"
    by (simp_all add: session_inv_def)
  consider (digit) "state (gd w) = GS_INPUT" "CHR ''0'' \<le> key \<and> key \<le> CHR ''9''"
    | (round) "\<not> (state (gd w) = GS_INPUT \<and> CHR ''0'' \<le> key \<and> key \<le> CHR ''9'')"
        "key = BUTTON_NEWROUND" "state (gd w) \<noteq> GS_GAMEOVER"
    | (game) "\<not> (state (gd w) = GS_INPUT \<and> CHR ''0'' \<le> key \<and> key \<le> CHR ''9'')"
        "(key = BUTTON_NEWROUND \<and> state (gd w) = GS_GAMEOVER) \<or> (key \<noteq> BUTTON_NEWROUND \<and> key = BUTTON_NEWGAME)"
    | (other) "\<not> (state (gd w) = GS_INPUT \<and> CHR ''0'' \<le> key \<and> key \<le> CHR ''9'')"
        "key \<noteq> BUTTON_NEWROUND" "key \<noteq> BUTTON_NEWGAME"
    by blast
  then show ?thesis
  proof cases
    case digit
    then have nk: "key \<noteq> NO_KEY" by auto
    let ?n = "inputCount (gd w)"
    let ?w1 = "w\<lparr>gd := (gd w)\<lparr>input := (input (gd w))[?n := key], inputCount := incr16 ?n\<rparr>\<rparr>"
    have n: "?n < SECRET_LENGTH" using ic digit by simp
    have l: "loop key w = Inr (if SECRET_LENGTH \<le> inputCount (gd ?w1) then loop_evaluate ?w1 else ?w1)"
      using digit nk n by (simp add: loop_def Let_def)
    show ?thesis
    proof (cases "SECRET_LENGTH \<le> inputCount (gd ?w1)")
      case True
      with l assms(2) have w': "w' = loop_evaluate ?w1" by simp
      have "tries (gd ?w1) < TRIES_MAX" using tr digit by simp
      from loop_evaluate_tries [OF this] show ?thesis unfolding w' by simp
    next
      case False
      with l assms(2) have "w' = ?w1" by simp
      then show ?thesis by simp
    qed
  next
    case round
    then have "loop key w = Inr (resetInput w)" by (simp add: loop_newround)
    with assms(2) show ?thesis by (auto simp: resetInput_def)
  next
    case game
    then have "loop key w = newGame w" by (auto simp: loop_newround loop_newgame)
    with newGame_result [OF wf pool] assms(2) show ?thesis by auto
  next
    case other
    then have "loop key w = Inr w" by (intro loop_ignored)
    with assms(2) show ?thesis by simp
  qed
qed

lemma loop_digit_more:
  assumes "state (gd w) = GS_INPUT" "CHR ''0'' \<le> key \<and> key \<le> CHR ''9''"
    "Suc (inputCount (gd w)) < SECRET_LENGTH"
  shows "loop key w =
     Inr (w\<lparr>gd := (gd w)\<lparr>input := (input (gd w))[inputCount (gd w) := key],
                           inputCount := Suc (inputCount (gd w))\<rparr>\<rparr>)"
proof -
  have n: "inputCount (gd w) < SECRET_LENGTH" using assms(3) by simp
  have "incr16 (inputCount (gd w)) = Suc (inputCount (gd w))"
    using assms(3) by (simp add: incr16_def SECRET_LENGTH_def)
  moreover have "key \<noteq> NO_KEY" using assms(2) by auto
  ultimately show ?thesis using assms n by (simp add: loop_def Let_def)
qed

lemma startup_zero:
  "map_sum id (\<lambda>w. (state (gd w), secret (gd w), input (gd w), hints (gd w), inputCount (gd w), tries (gd w), randomDigitPool w))
     (startup zero_entropy) =
   Inr (GS_INPUT, ''2034'', replicate SECRET_LENGTH (CHR 0x00), replicate SECRET_LENGTH (CHR 0x00), 0, 0, ''2034567891'')"
  by code_simp

section \<open>Twelve unsolved rounds\<close>

lemma run_append:
  "run (ks @ ks') w = (case run ks w of Inl err \<Rightarrow> Inl err | Inr w' \<Rightarrow> run ks' w')"
  by (induction ks arbitrary: w) (auto split: sum.splits)

lemma five_is_digit: "CHR ''0'' \<le> CHR ''5'' \<and> CHR ''5'' \<le> CHR ''9''"
  by simp

lemma five_not_in_secret: "j < SECRET_LENGTH \<Longrightarrow> CHR ''5'' \<noteq> ''2034'' ! j"
proof -
  assume "j < SECRET_LENGTH"
  then have "''2034'' ! j \<in> set ''2034''" by (intro nth_mem) (simp add: SECRET_LENGTH_def)
  then show ?thesis by auto
qed

lemma run_guess_5555:
  assumes "playing t w" "t < TRIES_MAX"
  shows "\<exists>w'. run ''5555'' w = Inr w' \<and> tries (gd w') = t + 1 \<and>
     state (gd w') = (if t + 1 = TRIES_MAX then GS_GAMEOVER else GS_ROUNDOVER) \<and>
     secret (gd w') = ''2034'' \<and> \<not> isSolved (gd w') \<and>
     inputCount (gd w') = SECRET_LENGTH \<and>
     length (input (gd w')) = SECRET_LENGTH \<and> length (hints (gd w')) = SECRET_LENGTH \<and>
     (t + 1 = TRIES_MAX \<longrightarrow> ledLose w' \<and> lcdMessage w' = MESSAGE_LOSE)"
proof -
  from assms(1) have st: "state (gd w) = GS_INPUT" and ic: "inputCount (gd w) = 0"
    and sec: "secret (gd w) = ''2034''" and li: "length (input (gd w)) = SECRET_LENGTH"
    and lh: "length (hints (gd w)) = SECRET_LENGTH" and tr: "tries (gd w) = t"
    by (simp_all add: playing_def)
  define w1 where "w1 = w\<lparr>gd := (gd w)\<lparr>input := (input (gd w))[0 := CHR ''5''], inputCount := Suc 0\<rparr>\<rparr>"
  define w2 where "w2 = w1\<lparr>gd := (gd w1)\<lparr>input := (input (gd w1))[Suc 0 := CHR ''5''], inputCount := Suc (Suc 0)\<rparr>\<rparr>"
  define w3 where "w3 = w2\<lparr>gd := (gd w2)\<lparr>input := (input (gd w2))[Suc (Suc 0) := CHR ''5''], inputCount := Suc (Suc (Suc 0))\<rparr>\<rparr>"
  define w4 where "w4 = w3\<lparr>gd := (gd w3)\<lparr>input := (input (gd w3))[Suc (Suc (Suc 0)) := CHR ''5''], inputCount := SECRET_LENGTH\<rparr>\<rparr>"
  have l1: "loop (CHR ''5'') w = Inr w1"
    using loop_digit_more [OF st five_is_digit] ic by (simp add: w1_def SECRET_LENGTH_def)
  have l2: "loop (CHR ''5'') w1 = Inr w2"
    using loop_digit_more [of w1, OF _ five_is_digit] st by (simp add: w1_def w2_def SECRET_LENGTH_def)
  have l3: "loop (CHR ''5'') w2 = Inr w3"
    using loop_digit_more [of w2, OF _ five_is_digit] st
    by (simp add: w1_def w2_def w3_def SECRET_LENGTH_def)
  have l4: "loop (CHR ''5'') w3 = Inr (loop_evaluate w4)"
    using loop_completing_digit [of w3, OF _ five_is_digit] st
    by (simp add: w1_def w2_def w3_def w4_def SECRET_LENGTH_def)
  have r: "run ''5555'' w = Inr (loop_evaluate w4)"
    by (simp add: l1 l2 l3 l4)
  let ?g = "checkInput ((gd w4)\<lparr>tries := incr16 (tries (gd w4))\<rparr>)"
  have c4: "inputCount (gd w4) = SECRET_LENGTH" by (simp add: w4_def)
  have t4: "tries (gd w4) = t" and s4: "secret (gd w4) = ''2034''"
    and li4: "length (input (gd w4)) = SECRET_LENGTH" and lh4: "length (hints (gd w4)) = SECRET_LENGTH"
    using tr sec li lh by (simp_all add: w1_def w2_def w3_def w4_def)
  have i0: "input (gd w4) ! 0 = CHR ''5''"
    using li by (simp add: w1_def w2_def w3_def w4_def SECRET_LENGTH_def)
  have inc: "incr16 t = t + 1" using assms(2) by (simp add: incr16_small TRIES_MAX_def)
  have zero: "0 < SECRET_LENGTH" by (simp add: SECRET_LENGTH_def)
  have "hints ?g ! 0 = HINT_WRONG"
    using checkInput_hint [of "(gd w4)\<lparr>tries := incr16 (tries (gd w4))\<rparr>" 0] lh4 zero i0 s4
      five_not_in_secret by simp
  with zero have ns: "\<not> isSolved ?g" by (auto simp: isSolved_iff)
  have lens: "length (input ?g) = SECRET_LENGTH" "length (hints ?g) = SECRET_LENGTH"
    using li4 lh4 by (simp_all add: checkInput_length)
  have ge: "TRIES_MAX \<le> t + 1 \<longleftrightarrow> t + 1 = TRIES_MAX" using assms(2) by auto
  show ?thesis
    unfolding r using ns lens t4 s4 c4 inc ge
    by (auto simp: loop_evaluate_cases Let_def)
qed

lemma resetInput_playing:
  assumes "state (gd w) = GS_ROUNDOVER" "secret (gd w) = ''2034''" "tries (gd w) = t"
    "length (input (gd w)) = SECRET_LENGTH" "length (hints (gd w)) = SECRET_LENGTH"
  shows "loop (CHR ''*'') w = Inr (resetInput w) \<and> playing t (resetInput w)"
  using assms loop_newround [of w]
  by (simp add: BUTTON_NEWROUND_def playing_def resetInput_def)

lemma run_failed_rounds:
  "playing t w \<Longrightarrow> t + n < TRIES_MAX \<Longrightarrow>
   \<exists>w'. run (failed_rounds n) w = Inr w' \<and> playing (t + n) w'"
proof (induction n arbitrary: t w)
  case 0
  then show ?case by (simp add: failed_rounds_def)
next
  case (Suc n)
  have t: "t < TRIES_MAX" and t1: "t + 1 \<noteq> TRIES_MAX" using Suc.prems(2) by simp_all
  from run_guess_5555 [OF Suc.prems(1) t] t1 obtain w1 where
    r1: "run ''5555'' w = Inr w1" and p1: "tries (gd w1) = t + 1" "state (gd w1) = GS_ROUNDOVER"
      "secret (gd w1) = ''2034''" "length (input (gd w1)) = SECRET_LENGTH"
      "length (hints (gd w1)) = SECRET_LENGTH"
    by auto
  from resetInput_playing [OF p1(2) p1(3) p1(1) p1(4) p1(5)]
  have r2: "loop (CHR ''*'') w1 = Inr (resetInput w1)" and p2: "playing (t + 1) (resetInput w1)"
    by simp_all
  have "t + 1 + n < TRIES_MAX" using Suc.prems(2) by simp
  from Suc.IH [OF p2 this] obtain w' where
    r3: "run (failed_rounds n) (resetInput w1) = Inr w'" and p3: "playing (t + 1 + n) w'" by blast
  have "run (failed_rounds (Suc n)) w = run (''5555'' @ (CHR ''*'' # failed_rounds n)) w"
    by (simp add: failed_rounds_def)
  also have "\<dots> = run (CHR ''*'' # failed_rounds n) w1"
    by (simp only: run_append r1 sum.case)
  also have "\<dots> = run (failed_rounds n) (resetInput w1)"
    by (simp only: run.simps r2 sum.case)
  finally have "run (failed_rounds (Suc n)) w = Inr w'" using r3 by simp
  with p3 show ?case by simp
qed

lemma startup_zero_playing: "\<exists>w. startup zero_entropy = Inr w \<and> playing 0 w"
proof -
  from startup_inv [of zero_entropy] obtain w where s: "startup zero_entropy = Inr w" by blast
  with startup_zero show ?thesis by (simp add: playing_def)
qed

lemma twelve_failed_rounds:
  "\<exists>w. session zero_entropy (failed_rounds 11 @ ''5555'') = Inr w \<and>
     tries (gd w) = TRIES_MAX \<and> state (gd w) = GS_GAMEOVER \<and> \<not> isSolved (gd w) \<and>
     inputCount (gd w) = SECRET_LENGTH \<and> ledLose w \<and> lcdMessage w = MESSAGE_LOSE"
proof -
  from startup_zero_playing obtain w0 where s: "startup zero_entropy = Inr w0" and p0: "playing 0 w0"
    by blast
  from run_failed_rounds [OF p0, of 11] obtain w1 where
    r1: "run (failed_rounds 11) w0 = Inr w1" and p1: "playing 11 w1"
    by (auto simp: TRIES_MAX_def)
  from run_guess_5555 [OF p1] obtain w where r2: "run ''5555'' w1 = Inr w"
    and p2: "tries (gd w) = TRIES_MAX" "state (gd w) = GS_GAMEOVER" "\<not> isSolved (gd w)"
    "inputCount (gd w) = SECRET_LENGTH" "ledLose w" "lcdMessage w = MESSAGE_LOSE"
    by (auto simp: TRIES_MAX_def)
  have "session zero_entropy (failed_rounds 11 @ ''5555'') = Inr w"
    by (simp only: session_def s run_append r1 r2 sum.case)
  with p2 show ?thesis by blast
qed

lemma eleven_failed_rounds:
  "\<exists>w. session zero_entropy (failed_rounds 10 @ ''5555'') = Inr w \<and>
     tries (gd w) = 11 \<and> state (gd w) = GS_ROUNDOVER \<and> \<not> isSolved (gd w) \<and>
     inputCount (gd w) = SECRET_LENGTH"
proof -
  from startup_zero_playing obtain w0 where s: "startup zero_entropy = Inr w0" and p0: "playing 0 w0"
    by blast
  from run_failed_rounds [OF p0, of 10] obtain w1 where
    r1: "run (failed_rounds 10) w0 = Inr w1" and p1: "playing 10 w1"
    by (auto simp: TRIES_MAX_def)
  from run_guess_5555 [OF p1] obtain w where r2: "run ''5555'' w1 = Inr w"
    and p2: "tries (gd w) = 11" "state (gd w) = GS_ROUNDOVER" "\<not> isSolved (gd w)"
      "inputCount (gd w) = SECRET_LENGTH"
    by (auto simp: TRIES_MAX_def)
  have "session zero_entropy (failed_rounds 10 @ ''5555'') = Inr w"
    by (simp only: session_def s run_append r1 r2 sum.case)
  with p2 show ?thesis by blast
qed


lemma three_digits_typed:
  "\<exists>w. session zero_entropy ''555'' = Inr w \<and> state (gd w) = GS_INPUT \<and> inputCount (gd w) = 3"
proof -
  from startup_zero_playing obtain w where s: "startup zero_entropy = Inr w" and p: "playing 0 w"
    by blast
  from p have st: "state (gd w) = GS_INPUT" and ic: "inputCount (gd w) = 0"
    by (simp_all add: playing_def)
  define w1 where "w1 = w\<lparr>gd := (gd w)\<lparr>input := (input (gd w))[0 := CHR ''5''], inputCount := Suc 0\<rparr>\<rparr>"
  define w2 where "w2 = w1\<lparr>gd := (gd w1)\<lparr>input := (input (gd w1))[Suc 0 := CHR ''5''], inputCount := Suc (Suc 0)\<rparr>\<rparr>"
  define w3 where "w3 = w2\<lparr>gd := (gd w2)\<lparr>input := (input (gd w2))[Suc (Suc 0) := CHR ''5''], inputCount := Suc (Suc (Suc 0))\<rparr>\<rparr>"
  have l1: "loop (CHR ''5'') w = Inr w1"
    using loop_digit_more [OF st five_is_digit] ic by (simp add: w1_def SECRET_LENGTH_def)
  have l2: "loop (CHR ''5'') w1 = Inr w2"
    using loop_digit_more [of w1, OF _ five_is_digit] st by (simp add: w1_def w2_def SECRET_LENGTH_def)
  have l3: "loop (CHR ''5'') w2 = Inr w3"
    using loop_digit_more [of w2, OF _ five_is_digit] st
    by (simp add: w1_def w2_def w3_def SECRET_LENGTH_def)
  have "session zero_entropy ''555'' = Inr w3" by (simp add: session_def s l1 l2 l3)
  moreover have "state (gd w3) = GS_INPUT" "inputCount (gd w3) = 3"
    using st by (simp_all add: w1_def w2_def w3_def)
  ultimately show ?thesis by blast
qed

lemma loop_overflow_is_reported:
  "state (gd w) = GS_INPUT \<Longrightarrow> SECRET_LENGTH \<le> inputCount (gd w) \<Longrightarrow>
   CHR ''0'' \<le> key \<and> key \<le> CHR ''9'' \<Longrightarrow> loop key w = Inl OutOfBounds"
  by (auto simp: loop_def)

section \<open>Sessions\<close>

text \<open>
  Claim C4. In every session, whatever the entropy and the keys pressed, the globals are
  defined (no index left an array) and the secret consists of \<open>SECRET_LENGTH\<close> pairwise
  distinct digits: it is the first \<open>SECRET_LENGTH\<close> elements of the pool, the pool is a
  rearrangement of the ten digits however often it has been shuffled, and so every
  prefix of the pool is free of duplicates. Generating a secret without duplicates from
  any pool of \<open>DIGIT_COUNT\<close> distinct characters only permutes the pool and returns
  distinct digits.
\<close>

theorem secret_digits_distinct:
  "(\<exists>w. session e ks = Inr w \<and>
      distinct (secret (gd w)) \<and> length (secret (gd w)) = SECRET_LENGTH \<and>
      secret (gd w) = take SECRET_LENGTH (randomDigitPool w) \<and>
      mset (randomDigitPool w) = mset ''0123456789'' \<and>
      (\<forall>n \<le> DIGIT_COUNT. distinct (take n (randomDigitPool w)))) \<and>
   (distinct (randomDigitPool w0) \<and> length (randomDigitPool w0) = DIGIT_COUNT \<and>
    length (secret (gd w0)) = SECRET_LENGTH \<longrightarrow>
      (\<exists>w1. generateSecret False w0 = Inr w1 \<and>
         mset (randomDigitPool w1) = mset (randomDigitPool w0) \<and>
         secret (gd w1) = take SECRET_LENGTH (randomDigitPool w1) \<and>
         distinct (secret (gd w1)) \<and> length (secret (gd w1)) = SECRET_LENGTH))"
proof -
  from session_inv_holds [of e ks] obtain w where s: "session e ks = Inr w" and inv: "session_inv w"
    by blast
  from inv have pool: "mset (randomDigitPool w) = mset ''0123456789''"
    and sec: "secret (gd w) = take SECRET_LENGTH (randomDigitPool w)"
    and wf: "wf_gameData (gd w)"
    by (simp_all add: session_inv_def)
  have d: "distinct (randomDigitPool w)" using pool by (rule digits_distinct)
  then have "distinct (secret (gd w))" using sec by simp
  moreover have "length (secret (gd w)) = SECRET_LENGTH" using wf by (simp add: wf_gameData_def)
  moreover have "\<forall>n \<le> DIGIT_COUNT. distinct (take n (randomDigitPool w))" using d by simp
  ultimately have first: "\<exists>w. session e ks = Inr w \<and>
      distinct (secret (gd w)) \<and> length (secret (gd w)) = SECRET_LENGTH \<and>
      secret (gd w) = take SECRET_LENGTH (randomDigitPool w) \<and>
      mset (randomDigitPool w) = mset ''0123456789'' \<and>
      (\<forall>n \<le> DIGIT_COUNT. distinct (take n (randomDigitPool w)))"
    using s pool sec by blast
  have second: "distinct (randomDigitPool w0) \<and> length (randomDigitPool w0) = DIGIT_COUNT \<and>
    length (secret (gd w0)) = SECRET_LENGTH \<longrightarrow>
      (\<exists>w1. generateSecret False w0 = Inr w1 \<and>
         mset (randomDigitPool w1) = mset (randomDigitPool w0) \<and>
         secret (gd w1) = take SECRET_LENGTH (randomDigitPool w1) \<and>
         distinct (secret (gd w1)) \<and> length (secret (gd w1)) = SECRET_LENGTH)"
  proof
    assume a: "distinct (randomDigitPool w0) \<and> length (randomDigitPool w0) = DIGIT_COUNT \<and>
      length (secret (gd w0)) = SECRET_LENGTH"
    then obtain pool' e' where m: "mset pool' = mset (randomDigitPool w0)"
      and l: "length pool' = DIGIT_COUNT"
      and g: "generateSecret False w0 =
        Inr (w0\<lparr>gd := (gd w0)\<lparr>secret := take SECRET_LENGTH pool'\<rparr>, randomDigitPool := pool', rng := e'\<rparr>)"
      using generateSecret_False [of w0] by blast
    have "distinct pool'" using m a mset_eq_imp_distinct_iff [of pool' "randomDigitPool w0"] by simp
    with g m l show "\<exists>w1. generateSecret False w0 = Inr w1 \<and>
         mset (randomDigitPool w1) = mset (randomDigitPool w0) \<and>
         secret (gd w1) = take SECRET_LENGTH (randomDigitPool w1) \<and>
         distinct (secret (gd w1)) \<and> length (secret (gd w1)) = SECRET_LENGTH"
      by (simp add: SECRET_LENGTH_def DIGIT_COUNT_def)
  qed
  from first second show ?thesis by (rule conjI)
qed

theorem secret_digits_distinct_witness:
  "(\<exists>w. session zero_entropy ''5###'' = Inr w \<and> distinct (secret (gd w)) \<and>
      length (secret (gd w)) = SECRET_LENGTH \<and> distinct (take 7 (randomDigitPool w))) \<and>
   distinct (randomDigitPool (initial_world zero_entropy)) \<and>
   length (randomDigitPool (initial_world zero_entropy)) = DIGIT_COUNT \<and>
   length (secret (gd (initial_world zero_entropy))) = SECRET_LENGTH \<and>
   (\<exists>w1. generateSecret False (initial_world zero_entropy) = Inr w1 \<and>
      secret (gd w1) = ''2034'' \<and> distinct (secret (gd w1)))"
proof -
  note t = secret_digits_distinct [of zero_entropy "''5###''" "initial_world zero_entropy"]
  have seven: "(7::nat) \<le> DIGIT_COUNT" by (simp add: DIGIT_COUNT_def)
  have h: "distinct (randomDigitPool (initial_world zero_entropy)) \<and>
    length (randomDigitPool (initial_world zero_entropy)) = DIGIT_COUNT \<and>
    length (secret (gd (initial_world zero_entropy))) = SECRET_LENGTH"
    by (simp add: initial_world_def DIGIT_COUNT_def)
  with t obtain w1 where g: "generateSecret False (initial_world zero_entropy) = Inr w1"
    and d: "distinct (secret (gd w1))" by blast
  have "map_sum id (\<lambda>w. secret (gd w)) (generateSecret False (initial_world zero_entropy)) = Inr ''2034''"
    by code_simp
  with g have "secret (gd w1) = ''2034''" by simp
  with g d have second: "\<exists>w1. generateSecret False (initial_world zero_entropy) = Inr w1 \<and>
      secret (gd w1) = ''2034'' \<and> distinct (secret (gd w1))" by blast
  from t seven have first: "\<exists>w. session zero_entropy ''5###'' = Inr w \<and> distinct (secret (gd w)) \<and>
      length (secret (gd w)) = SECRET_LENGTH \<and> distinct (take 7 (randomDigitPool w))" by blast
  from first h second show ?thesis by blast
qed

text \<open>
  Claim C5. In every session from a new game, whatever the keys, the try count is at most
  \<open>TRIES_MAX\<close>; it equals \<open>TRIES_MAX\<close> only in state \<open>GS_GAMEOVER\<close>, and a round left in
  state \<open>GS_ROUNDOVER\<close> is unsolved. One more key event is accepted and leaves the count
  unchanged, resets it to 0, or adds one to it; in the last case the new state is
  \<open>GS_GAMEOVER\<close> exactly when the guess is solved or the count has reached \<open>TRIES_MAX\<close>,
  and \<open>GS_ROUNDOVER\<close> otherwise. The count after the event is again at most \<open>TRIES_MAX\<close>.
\<close>

theorem tries_bounded:
  "\<exists>w. session e ks = Inr w \<and>
     tries (gd w) \<le> TRIES_MAX \<and>
     (tries (gd w) = TRIES_MAX \<longrightarrow> state (gd w) = GS_GAMEOVER) \<and>
     (state (gd w) = GS_ROUNDOVER \<longrightarrow> \<not> isSolved (gd w)) \<and>
     (\<exists>w'. loop k w = Inr w' \<and> tries (gd w') \<le> TRIES_MAX \<and>
        (tries (gd w') = tries (gd w) \<or> tries (gd w') = 0 \<or>
         (tries (gd w') = tries (gd w) + 1 \<and>
          (state (gd w') = GS_GAMEOVER \<longleftrightarrow> isSolved (gd w') \<or> tries (gd w') = TRIES_MAX) \<and>
          (state (gd w') \<noteq> GS_GAMEOVER \<longrightarrow> state (gd w') = GS_ROUNDOVER))))"
proof -
  from session_inv_holds [of e ks] obtain w where s: "session e ks = Inr w" and inv: "session_inv w"
    by blast
  from loop_inv [OF inv, of k] obtain w' where l: "loop k w = Inr w'" and inv': "session_inv w'"
    by blast
  have "tries (gd w) \<le> TRIES_MAX \<and>
     (tries (gd w) = TRIES_MAX \<longrightarrow> state (gd w) = GS_GAMEOVER) \<and>
     (state (gd w) = GS_ROUNDOVER \<longrightarrow> \<not> isSolved (gd w))"
    using inv by (auto simp: session_inv_def)
  moreover have "tries (gd w') \<le> TRIES_MAX" using inv' by (simp add: session_inv_def)
  moreover note loop_tries [OF inv l]
  ultimately show ?thesis using s l by blast
qed

theorem tries_bounded_witness:
  "(\<exists>w. session zero_entropy (failed_rounds 11 @ ''5555'') = Inr w \<and>
      tries (gd w) = TRIES_MAX \<and> state (gd w) = GS_GAMEOVER \<and>
      (\<exists>w'. loop (CHR ''5'') w = Inr w' \<and> tries (gd w') \<le> TRIES_MAX)) \<and>
   (\<exists>w. session zero_entropy (failed_rounds 10 @ ''5555'') = Inr w \<and>
      tries (gd w) = 11 \<and> state (gd w) = GS_ROUNDOVER \<and> \<not> isSolved (gd w))"
proof -
  from tries_bounded [of zero_entropy "failed_rounds 11 @ ''5555''" "CHR ''5''"]
  obtain w w' where s: "session zero_entropy (failed_rounds 11 @ ''5555'') = Inr w"
    and i: "tries (gd w) = TRIES_MAX \<longrightarrow> state (gd w) = GS_GAMEOVER"
    and l: "loop (CHR ''5'') w = Inr w'" "tries (gd w') \<le> TRIES_MAX"
    by blast
  from twelve_failed_rounds s have t: "tries (gd w) = TRIES_MAX" by auto
  with i s l have first: "\<exists>w. session zero_entropy (failed_rounds 11 @ ''5555'') = Inr w \<and>
      tries (gd w) = TRIES_MAX \<and> state (gd w) = GS_GAMEOVER \<and>
      (\<exists>w'. loop (CHR ''5'') w = Inr w' \<and> tries (gd w') \<le> TRIES_MAX)" by blast
  from tries_bounded [of zero_entropy "failed_rounds 10 @ ''5555''" "CHR ''5''"]
  obtain v where s': "session zero_entropy (failed_rounds 10 @ ''5555'') = Inr v"
    and j: "state (gd v) = GS_ROUNDOVER \<longrightarrow> \<not> isSolved (gd v)"
    by blast
  from eleven_failed_rounds s' have "tries (gd v) = 11" "state (gd v) = GS_ROUNDOVER" by auto
  with j s' have second: "\<exists>w. session zero_entropy (failed_rounds 10 @ ''5555'') = Inr w \<and>
      tries (gd w) = 11 \<and> state (gd w) = GS_ROUNDOVER \<and> \<not> isSolved (gd w)" by blast
  from first second show ?thesis by (rule conjI)
qed

text \<open>
  Claim C6. A key event that triggers no transition leaves all the globals as they
  were, the whole of \<open>gameData\<close> included: a digit key in state \<open>GS_ROUNDOVER\<close> or
  \<open>GS_GAMEOVER\<close>, and in every state a key that is neither a digit nor one of the two
  buttons. In a session the guess buffer is full only in those two states, so a digit
  key that finds the buffer full changes nothing.
\<close>

theorem ignored_keys_change_nothing:
  "(((CHR ''0'' \<le> key \<and> key \<le> CHR ''9'') \<and>
       (state (gd w) = GS_ROUNDOVER \<or> state (gd w) = GS_GAMEOVER)) \<or>
     (\<not> (CHR ''0'' \<le> key \<and> key \<le> CHR ''9'') \<and>
       key \<noteq> BUTTON_NEWROUND \<and> key \<noteq> BUTTON_NEWGAME)
    \<longrightarrow> loop key w = Inr w) \<and>
   (\<exists>v. session e ks = Inr v \<and>
      (CHR ''0'' \<le> key \<and> key \<le> CHR ''9'' \<and> SECRET_LENGTH \<le> inputCount (gd v) \<longrightarrow>
         state (gd v) \<noteq> GS_INPUT \<and> loop key v = Inr v))"
proof -
  have first: "((CHR ''0'' \<le> key \<and> key \<le> CHR ''9'') \<and>
       (state (gd w) = GS_ROUNDOVER \<or> state (gd w) = GS_GAMEOVER)) \<or>
     (\<not> (CHR ''0'' \<le> key \<and> key \<le> CHR ''9'') \<and>
       key \<noteq> BUTTON_NEWROUND \<and> key \<noteq> BUTTON_NEWGAME)
    \<longrightarrow> loop key w = Inr w"
  proof
    assume a: "((CHR ''0'' \<le> key \<and> key \<le> CHR ''9'') \<and>
       (state (gd w) = GS_ROUNDOVER \<or> state (gd w) = GS_GAMEOVER)) \<or>
     (\<not> (CHR ''0'' \<le> key \<and> key \<le> CHR ''9'') \<and>
       key \<noteq> BUTTON_NEWROUND \<and> key \<noteq> BUTTON_NEWGAME)"
    show "loop key w = Inr w"
    proof (rule loop_ignored)
      show "\<not> (state (gd w) = GS_INPUT \<and> CHR ''0'' \<le> key \<and> key \<le> CHR ''9'')" using a by auto
      show "key \<noteq> BUTTON_NEWROUND" using a by auto
      show "key \<noteq> BUTTON_NEWGAME" using a by auto
    qed
  qed
  from session_inv_holds [of e ks] obtain v where s: "session e ks = Inr v" and inv: "session_inv v"
    by blast
  have "CHR ''0'' \<le> key \<and> key \<le> CHR ''9'' \<and> SECRET_LENGTH \<le> inputCount (gd v) \<longrightarrow>
         state (gd v) \<noteq> GS_INPUT \<and> loop key v = Inr v"
  proof
    assume a: "CHR ''0'' \<le> key \<and> key \<le> CHR ''9'' \<and> SECRET_LENGTH \<le> inputCount (gd v)"
    with inv have ni: "state (gd v) \<noteq> GS_INPUT" by (auto simp: session_inv_def)
    have "loop key v = Inr v"
    proof (rule loop_ignored)
      show "\<not> (state (gd v) = GS_INPUT \<and> CHR ''0'' \<le> key \<and> key \<le> CHR ''9'')" using ni by simp
      show "key \<noteq> BUTTON_NEWROUND" using a by auto
      show "key \<noteq> BUTTON_NEWGAME" using a by auto
    qed
    with ni show "state (gd v) \<noteq> GS_INPUT \<and> loop key v = Inr v" by simp
  qed
  with s first show ?thesis by blast
qed

theorem ignored_keys_change_nothing_witness:
  "loop (CHR ''A'') (world_at 11 ''1230'') = Inr (world_at 11 ''1230'') \<and>
   loop (CHR ''5'') ((world_at 12 ''1230'')\<lparr>gd := (gd (world_at 12 ''1230''))\<lparr>state := GS_GAMEOVER\<rparr>\<rparr>) =
     Inr ((world_at 12 ''1230'')\<lparr>gd := (gd (world_at 12 ''1230''))\<lparr>state := GS_GAMEOVER\<rparr>\<rparr>) \<and>
   (\<exists>v. session zero_entropy (failed_rounds 10 @ ''5555'') = Inr v \<and>
      SECRET_LENGTH \<le> inputCount (gd v) \<and> state (gd v) = GS_ROUNDOVER \<and>
      loop (CHR ''5'') v = Inr v)"
proof -
  let ?over = "(world_at 12 ''1230'')\<lparr>gd := (gd (world_at 12 ''1230''))\<lparr>state := GS_GAMEOVER\<rparr>\<rparr>"
  have "\<not> (CHR ''0'' \<le> CHR ''A'' \<and> CHR ''A'' \<le> CHR ''9'') \<and>
       CHR ''A'' \<noteq> BUTTON_NEWROUND \<and> CHR ''A'' \<noteq> BUTTON_NEWGAME"
    by (simp add: BUTTON_NEWROUND_def BUTTON_NEWGAME_def)
  with ignored_keys_change_nothing [of "CHR ''A''" "world_at 11 ''1230''" zero_entropy "[]"]
  have a: "loop (CHR ''A'') (world_at 11 ''1230'') = Inr (world_at 11 ''1230'')" by blast
  have "(CHR ''0'' \<le> CHR ''5'' \<and> CHR ''5'' \<le> CHR ''9'') \<and>
       (state (gd ?over) = GS_ROUNDOVER \<or> state (gd ?over) = GS_GAMEOVER)"
    by simp
  with ignored_keys_change_nothing [of "CHR ''5''" ?over zero_entropy "failed_rounds 10 @ ''5555''"]
  obtain v where b: "loop (CHR ''5'') ?over = Inr ?over"
    and s: "session zero_entropy (failed_rounds 10 @ ''5555'') = Inr v"
    and i: "CHR ''0'' \<le> CHR ''5'' \<and> CHR ''5'' \<le> CHR ''9'' \<and> SECRET_LENGTH \<le> inputCount (gd v) \<longrightarrow>
         state (gd v) \<noteq> GS_INPUT \<and> loop (CHR ''5'') v = Inr v"
    by blast
  from eleven_failed_rounds s have f: "inputCount (gd v) = SECRET_LENGTH" "state (gd v) = GS_ROUNDOVER"
    by auto
  with i five_is_digit have "loop (CHR ''5'') v = Inr v" by simp
  with s f have "\<exists>v. session zero_entropy (failed_rounds 10 @ ''5555'') = Inr v \<and>
      SECRET_LENGTH \<le> inputCount (gd v) \<and> state (gd v) = GS_ROUNDOVER \<and>
      loop (CHR ''5'') v = Inr v" by auto
  with a b show ?thesis by blast
qed

text \<open>
  Claim C7. The new-game key in any state, and the new-round key in state \<open>GS_GAMEOVER\<close>,
  start a new game: the pool is shuffled again with the next draws of the entropy
  source and the secret is the first \<open>SECRET_LENGTH\<close> elements of the shuffled pool, the
  try count is 0, the guess is empty, the state is \<open>GS_INPUT\<close>, and both diodes and the
  message are off. This holds wherever the buffers have their declared size and the
  pool holds the ten digits, which is the case in every session.
\<close>

theorem new_game_resets:
  "(wf_gameData (gd w) \<and> mset (randomDigitPool w) = mset ''0123456789'' \<and>
    (key = BUTTON_NEWGAME \<or> (key = BUTTON_NEWROUND \<and> state (gd w) = GS_GAMEOVER)) \<longrightarrow>
      (\<exists>w' pool' e'. loop key w = Inr w' \<and>
         shuffleSort (randomDigitPool w) DIGIT_COUNT (rng w) = Inr (pool', e') \<and>
         randomDigitPool w' = pool' \<and> rng w' = e' \<and>
         secret (gd w') = take SECRET_LENGTH pool' \<and>
         tries (gd w') = 0 \<and> inputCount (gd w') = 0 \<and> state (gd w') = GS_INPUT \<and>
         \<not> ledWin w' \<and> \<not> ledLose w' \<and> lcdMessage w' = [])) \<and>
   (\<exists>v. session e ks = Inr v \<and> wf_gameData (gd v) \<and>
      mset (randomDigitPool v) = mset ''0123456789'')"
proof -
  have first: "wf_gameData (gd w) \<and> mset (randomDigitPool w) = mset ''0123456789'' \<and>
    (key = BUTTON_NEWGAME \<or> (key = BUTTON_NEWROUND \<and> state (gd w) = GS_GAMEOVER)) \<longrightarrow>
      (\<exists>w' pool' e'. loop key w = Inr w' \<and>
         shuffleSort (randomDigitPool w) DIGIT_COUNT (rng w) = Inr (pool', e') \<and>
         randomDigitPool w' = pool' \<and> rng w' = e' \<and>
         secret (gd w') = take SECRET_LENGTH pool' \<and>
         tries (gd w') = 0 \<and> inputCount (gd w') = 0 \<and> state (gd w') = GS_INPUT \<and>
         \<not> ledWin w' \<and> \<not> ledLose w' \<and> lcdMessage w' = [])"
  proof
    assume a: "wf_gameData (gd w) \<and> mset (randomDigitPool w) = mset ''0123456789'' \<and>
      (key = BUTTON_NEWGAME \<or> (key = BUTTON_NEWROUND \<and> state (gd w) = GS_GAMEOVER))"
    let ?w = "w\<lparr>lcdMessage := []\<rparr>"
    have l: "loop key w = newGame w" using a by (auto simp: loop_newround loop_newgame)
    have "length (randomDigitPool ?w) = DIGIT_COUNT" using a by (simp add: digits_length)
    moreover have "length (secret (gd ?w)) = SECRET_LENGTH" using a by (simp add: wf_gameData_def)
    ultimately obtain pool' e' where
      sh: "shuffleSort (randomDigitPool ?w) DIGIT_COUNT (rng ?w) = Inr (pool', e')" and
      g: "generateSecret False ?w =
         Inr (?w\<lparr>gd := (gd ?w)\<lparr>secret := take SECRET_LENGTH pool'\<rparr>, randomDigitPool := pool', rng := e'\<rparr>)"
      using generateSecret_False [of ?w] by blast
    let ?w1 = "?w\<lparr>gd := (gd ?w)\<lparr>secret := take SECRET_LENGTH pool'\<rparr>,
        randomDigitPool := pool', rng := e'\<rparr>"
    let ?w' = "resetInput (?w1\<lparr>gd := (gd ?w1)\<lparr>tries := 0\<rparr>, ledWin := False, ledLose := False\<rparr>)"
    have "loop key w = Inr ?w'" by (simp only: l newGame_def g sum.case)
    moreover have "shuffleSort (randomDigitPool w) DIGIT_COUNT (rng w) = Inr (pool', e')"
      using sh by simp
    moreover have "randomDigitPool ?w' = pool'" "rng ?w' = e'"
      "secret (gd ?w') = take SECRET_LENGTH pool'"
      "tries (gd ?w') = 0" "inputCount (gd ?w') = 0" "state (gd ?w') = GS_INPUT"
      "\<not> ledWin ?w'" "\<not> ledLose ?w'" "lcdMessage ?w' = []"
      by (simp_all add: resetInput_def)
    ultimately show "\<exists>w' pool' e'. loop key w = Inr w' \<and>
         shuffleSort (randomDigitPool w) DIGIT_COUNT (rng w) = Inr (pool', e') \<and>
         randomDigitPool w' = pool' \<and> rng w' = e' \<and>
         secret (gd w') = take SECRET_LENGTH pool' \<and>
         tries (gd w') = 0 \<and> inputCount (gd w') = 0 \<and> state (gd w') = GS_INPUT \<and>
         \<not> ledWin w' \<and> \<not> ledLose w' \<and> lcdMessage w' = []"
      by blast
  qed
  from session_inv_holds [of e ks] have "\<exists>v. session e ks = Inr v \<and> wf_gameData (gd v) \<and>
      mset (randomDigitPool v) = mset ''0123456789''"
    by (auto simp: session_inv_def)
  with first show ?thesis by (rule conjI)
qed


lemma game_over_world:
  "wf_gameData (gd ((world_at 12 ''1230'')\<lparr>gd := (gd (world_at 12 ''1230''))\<lparr>state := GS_GAMEOVER\<rparr>\<rparr>))"
  "mset (randomDigitPool ((world_at 12 ''1230'')\<lparr>gd := (gd (world_at 12 ''1230''))\<lparr>state := GS_GAMEOVER\<rparr>\<rparr>)) =
     mset ''0123456789''"
  "state (gd ((world_at 12 ''1230'')\<lparr>gd := (gd (world_at 12 ''1230''))\<lparr>state := GS_GAMEOVER\<rparr>\<rparr>)) = GS_GAMEOVER"
  "randomDigitPool ((world_at 12 ''1230'')\<lparr>gd := (gd (world_at 12 ''1230''))\<lparr>state := GS_GAMEOVER\<rparr>\<rparr>) = ''1234567890''"
  "rng ((world_at 12 ''1230'')\<lparr>gd := (gd (world_at 12 ''1230''))\<lparr>state := GS_GAMEOVER\<rparr>\<rparr>) = zero_entropy"
  by (simp_all add: world_at_def wf_gameData_def SECRET_LENGTH_def)

lemma shuffle_of_world_at:
  "map_sum id fst (shuffleSort ''1234567890'' DIGIT_COUNT zero_entropy) = Inr ''3145678902''"
  by code_simp

theorem new_game_resets_witness:
  "(\<exists>w'. loop BUTTON_NEWGAME (initial_world zero_entropy) = Inr w' \<and>
      tries (gd w') = 0 \<and> inputCount (gd w') = 0 \<and> state (gd w') = GS_INPUT) \<and>
   (\<exists>w'. loop BUTTON_NEWROUND
          ((world_at 12 ''1230'')\<lparr>gd := (gd (world_at 12 ''1230''))\<lparr>state := GS_GAMEOVER\<rparr>\<rparr>) = Inr w' \<and>
      secret (gd w') = ''3145'' \<and> randomDigitPool w' = ''3145678902'' \<and>
      tries (gd w') = 0 \<and> inputCount (gd w') = 0 \<and> state (gd w') = GS_INPUT)"
proof -
  let ?over = "(world_at 12 ''1230'')\<lparr>gd := (gd (world_at 12 ''1230''))\<lparr>state := GS_GAMEOVER\<rparr>\<rparr>"
  have "wf_gameData (gd (initial_world zero_entropy)) \<and>
    mset (randomDigitPool (initial_world zero_entropy)) = mset ''0123456789''"
    by (simp add: initial_world_def wf_gameData_def)
  with new_game_resets [of "initial_world zero_entropy" BUTTON_NEWGAME zero_entropy "[]"]
  have first: "\<exists>w'. loop BUTTON_NEWGAME (initial_world zero_entropy) = Inr w' \<and>
      tries (gd w') = 0 \<and> inputCount (gd w') = 0 \<and> state (gd w') = GS_INPUT"
    by blast
  from new_game_resets [of ?over BUTTON_NEWROUND zero_entropy "[]"] game_over_world(1,2,3)
  obtain w' pool' e' where l: "loop BUTTON_NEWROUND ?over = Inr w'"
    and sh: "shuffleSort (randomDigitPool ?over) DIGIT_COUNT (rng ?over) = Inr (pool', e')"
    and p: "randomDigitPool w' = pool'" "secret (gd w') = take SECRET_LENGTH pool'"
      "tries (gd w') = 0" "inputCount (gd w') = 0" "state (gd w') = GS_INPUT"
    by blast
  from sh shuffle_of_world_at have "pool' = ''3145678902''"
    unfolding game_over_world(4,5) by simp
  with p have "secret (gd w') = ''3145''" "randomDigitPool w' = ''3145678902''"
    by (simp_all add: SECRET_LENGTH_def)
  with l p first show ?thesis by blast
qed

text \<open>
  Claim C8. The new-round key in state \<open>GS_INPUT\<close> or \<open>GS_ROUNDOVER\<close> sets the state to
  \<open>GS_INPUT\<close> and empties the guess. The secret and the try count stay as they were, and
  so do the pool and the entropy source: no secret is generated.
\<close>

theorem new_round_keeps_secret_and_tries:
  assumes "state (gd w) = GS_INPUT \<or> state (gd w) = GS_ROUNDOVER"
  shows "\<exists>w'. loop BUTTON_NEWROUND w = Inr w' \<and>
     state (gd w') = GS_INPUT \<and> inputCount (gd w') = 0 \<and>
     secret (gd w') = secret (gd w) \<and> tries (gd w') = tries (gd w) \<and>
     randomDigitPool w' = randomDigitPool w \<and> rng w' = rng w"
proof -
  have "loop BUTTON_NEWROUND w = Inr (resetInput w)"
    using assms by (auto simp: loop_newround)
  then show ?thesis by (simp add: resetInput_def)
qed

theorem new_round_keeps_secret_and_tries_witness:
  "state (gd (world_at 11 ''1230'')) = GS_INPUT \<and>
   (\<exists>w'. loop BUTTON_NEWROUND (world_at 11 ''1230'') = Inr w' \<and>
      state (gd w') = GS_INPUT \<and> inputCount (gd w') = 0 \<and>
      secret (gd w') = ''1234'' \<and> tries (gd w') = 11) \<and>
   (\<exists>v v'. session zero_entropy (failed_rounds 10 @ ''5555'') = Inr v \<and>
      state (gd v) = GS_ROUNDOVER \<and> loop BUTTON_NEWROUND v = Inr v' \<and>
      state (gd v') = GS_INPUT \<and> inputCount (gd v') = 0 \<and>
      secret (gd v') = secret (gd v) \<and> tries (gd v') = 11)"
proof -
  have a: "state (gd (world_at 11 ''1230'')) = GS_INPUT" by (simp add: world_at_def)
  then have "state (gd (world_at 11 ''1230'')) = GS_INPUT \<or>
    state (gd (world_at 11 ''1230'')) = GS_ROUNDOVER" by simp
  from new_round_keeps_secret_and_tries [OF this]
  obtain w' where l: "loop BUTTON_NEWROUND (world_at 11 ''1230'') = Inr w'"
    and p: "state (gd w') = GS_INPUT" "inputCount (gd w') = 0"
      "secret (gd w') = secret (gd (world_at 11 ''1230''))"
      "tries (gd w') = tries (gd (world_at 11 ''1230''))"
    by blast
  have "secret (gd (world_at 11 ''1230'')) = ''1234''" "tries (gd (world_at 11 ''1230'')) = 11"
    by (simp_all add: world_at_def)
  with l p have first: "\<exists>w'. loop BUTTON_NEWROUND (world_at 11 ''1230'') = Inr w' \<and>
      state (gd w') = GS_INPUT \<and> inputCount (gd w') = 0 \<and>
      secret (gd w') = ''1234'' \<and> tries (gd w') = 11"
    by simp
  from eleven_failed_rounds obtain v where
    s: "session zero_entropy (failed_rounds 10 @ ''5555'') = Inr v"
    and r: "state (gd v) = GS_ROUNDOVER" and t: "tries (gd v) = 11" by blast
  from r have "state (gd v) = GS_INPUT \<or> state (gd v) = GS_ROUNDOVER" by simp
  from new_round_keeps_secret_and_tries [OF this] s r t
  have second: "\<exists>v v'. session zero_entropy (failed_rounds 10 @ ''5555'') = Inr v \<and>
      state (gd v) = GS_ROUNDOVER \<and> loop BUTTON_NEWROUND v = Inr v' \<and>
      state (gd v') = GS_INPUT \<and> inputCount (gd v') = 0 \<and>
      secret (gd v') = secret (gd v) \<and> tries (gd v') = 11"
    by auto
  from a first second show ?thesis by blast
qed

text \<open>
  Claim C9. In every session the number of digits typed is at most \<open>SECRET_LENGTH\<close>, and
  in state \<open>GS_INPUT\<close> it is less than \<open>SECRET_LENGTH\<close>, the size of the guess buffer. So
  the next key event, whatever the key, never writes outside the buffer: it returns new
  globals and not the out-of-bounds error of the model.
\<close>

theorem input_write_in_bounds:
  "\<exists>w. session e ks = Inr w \<and>
     length (input (gd w)) = SECRET_LENGTH \<and>
     inputCount (gd w) \<le> SECRET_LENGTH \<and>
     (state (gd w) = GS_INPUT \<longrightarrow> inputCount (gd w) < length (input (gd w))) \<and>
     loop k w \<noteq> Inl OutOfBounds \<and> (\<exists>w'. loop k w = Inr w')"
proof -
  from session_inv_holds [of e ks] obtain w where s: "session e ks = Inr w" and inv: "session_inv w"
    by blast
  from loop_inv [OF inv, of k] obtain w' where l: "loop k w = Inr w'" by blast
  have "length (input (gd w)) = SECRET_LENGTH" "inputCount (gd w) \<le> SECRET_LENGTH"
    "state (gd w) = GS_INPUT \<longrightarrow> inputCount (gd w) < length (input (gd w))"
    using inv by (simp_all add: session_inv_def wf_gameData_def)
  moreover have "loop k w \<noteq> Inl OutOfBounds" using l by simp
  ultimately show ?thesis using s l by blast
qed

theorem input_write_in_bounds_witness:
  "\<exists>w. session zero_entropy ''555'' = Inr w \<and> state (gd w) = GS_INPUT \<and>
     inputCount (gd w) = 3 \<and> inputCount (gd w) < length (input (gd w)) \<and>
     loop (CHR ''5'') w \<noteq> Inl OutOfBounds"
proof -
  from input_write_in_bounds [of zero_entropy "''555''" "CHR ''5''"]
  obtain w where s: "session zero_entropy ''555'' = Inr w"
    and i: "state (gd w) = GS_INPUT \<longrightarrow> inputCount (gd w) < length (input (gd w))"
    and l: "loop (CHR ''5'') w \<noteq> Inl OutOfBounds"
    by blast
  from three_digits_typed s have "state (gd w) = GS_INPUT" "inputCount (gd w) = 3" by auto
  with i s l show ?thesis by blast
qed

end
